theory Spec2Isabelle
  imports Complex_Main "HOL-Library.AList" "HOL-Library.Stream"
begin

section \<open>Python values, exceptions and the random module\<close>

text \<open>
  Every exception the modelled code can raise is a value of \<open>error\<close>; a function that may
  raise returns \<open>error + 'a\<close> with \<open>Inl\<close> for the exception. \<open>StructuralError\<close> stands for
  whatever the external model compiler raises when a graph cannot be built or fails its forward
  pass.
\<close>

datatype error =
    ValueError
  | IndexError
  | KeyError
  | AssertionError
  | UnboundLocalError
  | RuntimeError
  | StructuralError

text \<open>
  The module \<open>random\<close> is modelled by an infinite tape of natural numbers: each call of
  \<open>random.randint\<close>, \<open>random.choice\<close> or \<open>random.sample\<close> reads the entropy it needs from
  the head of the tape and hands the rest on. Every outcome the Python function can produce is
  produced by some tape (see \<open>randint_onto\<close>, \<open>choice_onto\<close>).
\<close>

type_synonym rng = "nat stream"

definition randint :: "int \<Rightarrow> int \<Rightarrow> rng \<Rightarrow> error + (int \<times> rng)" where
  "randint a b g =
     (if b < a then Inl ValueError
      else Inr (a + int (shd g mod nat (b - a + 1)), stl g))"

definition choice :: "'a list \<Rightarrow> rng \<Rightarrow> error + ('a \<times> rng)" where
  "choice xs g =
     (if xs = [] then Inl IndexError
      else Inr (xs ! (shd g mod length xs), stl g))"

text \<open>\<open>random.sample(population, k)\<close>: \<open>k\<close> draws without replacement, in drawing order.\<close>

fun sample_draw :: "'a list \<Rightarrow> nat \<Rightarrow> rng \<Rightarrow> 'a list \<times> rng" where
  "sample_draw pool 0 g = ([], g)"
| "sample_draw pool (Suc k) g =
     (let j = shd g mod length pool;
          (rest, g') = sample_draw (take j pool @ drop (Suc j) pool) k (stl g)
      in (pool ! j # rest, g'))"

definition sample :: "'a list \<Rightarrow> int \<Rightarrow> rng \<Rightarrow> error + ('a list \<times> rng)" where
  "sample population k g =
     (if k < 0 \<or> int (length population) < k then Inl ValueError
      else Inr (sample_draw population (nat k) g))"

text \<open>Python list indexing \<open>xs[i]\<close>, negative indices counting from the end.\<close>

definition py_index :: "'a list \<Rightarrow> int \<Rightarrow> error + 'a" where
  "py_index xs i =
     (let j = (if i < 0 then i + int (length xs) else i)
      in if j < 0 \<or> int (length xs) \<le> j then Inl IndexError else Inr (xs ! nat j))"

text \<open>
  A \<open>dict\<close> whose iteration order matters is an association list in insertion order:
  assigning to a key that is present keeps its place (\<open>AList.update\<close>).
  \<open>{x: i for i, x in enumerate(xs)}\<close> is \<open>enumerate_dict xs\<close>.
\<close>

definition enumerate_dict :: "'k list \<Rightarrow> ('k \<times> nat) list" where
  "enumerate_dict xs = fold (\<lambda>(i, x) d. AList.update x i d) (enumerate 0 xs) []"

definition dict_get :: "('k \<times> 'v) list \<Rightarrow> 'k \<Rightarrow> error + 'v" where
  "dict_get d k = (case map_of d k of None \<Rightarrow> Inl KeyError | Some v \<Rightarrow> Inr v)"

text \<open>\<open>min(xs, key=f)\<close>: the first element whose key is minimal; \<open>ValueError\<close> on no element.\<close>

fun py_min_key :: "('a \<Rightarrow> int) \<Rightarrow> 'a list \<Rightarrow> error + 'a" where
  "py_min_key f [] = Inl ValueError"
| "py_min_key f (x # xs) = Inr (fold (\<lambda>y m. if f y < f m then y else m) xs x)"

section \<open>The value-domain sampler\<close>

text \<open>
  \<^verbatim>\<open>
  def random_neighbor(param_values, current_value):
      param_values = sorted(copy.deepcopy(param_values))
      param2idx = {param: idx for idx, param in enumerate(param_values)}
      if current_value in param2idx:
          current_idx = param2idx[current_value]
      else:
          current_idx = param2idx[min(param2idx, key=lambda k: abs(k - current_value))]
      offset = random.randint(a=-1 if current_idx > 0 else 0,
                              b=1 if current_idx < len(param_values) - 1 else 0)
      return param_values[current_idx + offset]
  \<close>
\<close>

definition closest_idx :: "(int \<times> nat) list \<Rightarrow> int \<Rightarrow> error + nat" where
  "closest_idx param2idx current_value =
     (if current_value \<in> fst ` set param2idx then dict_get param2idx current_value
      else (case py_min_key (\<lambda>k. \<bar>k - current_value\<bar>) (map fst param2idx) of
              Inl e \<Rightarrow> Inl e
            | Inr k \<Rightarrow> dict_get param2idx k))"

definition random_neighbor :: "int list \<Rightarrow> int \<Rightarrow> rng \<Rightarrow> error + (int \<times> rng)" where
  "random_neighbor param_values0 current_value g =
     (let param_values = sort param_values0;
          param2idx = enumerate_dict param_values
      in case closest_idx param2idx current_value of
           Inl e \<Rightarrow> Inl e
         | Inr current_idx \<Rightarrow>
             (case randint (if 0 < current_idx then - 1 else 0)
                           (if int current_idx < int (length param_values) - 1 then 1 else 0) g of
                Inl e \<Rightarrow> Inl e
              | Inr (offset, g') \<Rightarrow>
                  (case py_index param_values (int current_idx + offset) of
                     Inl e \<Rightarrow> Inl e
                   | Inr v \<Rightarrow> Inr (v, g'))))"

section \<open>The node renamer\<close>

text \<open>
  A graph node is the dict \<open>{'name', 'op', 'scale', 'inputs'}\<close>. The entries of \<open>inputs\<close> are
  node names; crossover temporarily stores \<open>None\<close> in that list, so an entry is a
  \<open>string option\<close>. A node without inputs has the empty list. The operation of a sentinel node
  may be \<open>None\<close>.
\<close>

record node =
  name :: string
  op :: "string option"
  scale :: int
  inputs :: "string option list"

text \<open>\<open>str(i)\<close> for a non-negative integer, as the f-string \<open>f'layer_{i}'\<close> prints it.\<close>

definition digit_char :: "nat \<Rightarrow> char" where
  "digit_char d = ''0123456789'' ! d"

fun str_nat :: "nat \<Rightarrow> string" where
  "str_nat n = (if n < 10 then [digit_char n] else str_nat (n div 10) @ [digit_char (n mod 10)])"

text \<open>Reading a decimal numeral back; \<open>nat_of_str\<close> is a left inverse of \<open>str_nat\<close>.\<close>

definition digit_val :: "char \<Rightarrow> nat" where
  "digit_val c = of_char c - 48"

definition nat_of_str :: "string \<Rightarrow> nat" where
  "nat_of_str s = foldl (\<lambda>acc c. 10 * acc + digit_val c) 0 s"

text \<open>
  \<^verbatim>\<open>
  def rename_dag_node_list(node_list, prefix='', rename_input_output=True, add_input_output=False):
      node_list = copy.deepcopy(node_list)
      prefix = prefix + '_' if prefix else ''
      rename_map = {}
      if not rename_input_output:
          rename_map = {'input': 'input', 'output': 'output'}
      for i, node in enumerate(node_list):
          if node['name'] not in rename_map:
              if add_input_output:
                  new_name = ('input' if i == 0 else
                              'output' if i == len(node_list) - 1 else
                              prefix + f'layer_{i}')
              else:
                  new_name = prefix + f'layer_{i}'
              rename_map[node['name']] = new_name
              node['name'] = new_name
          if node['inputs']:
              node['inputs'] = [rename_map[inp_name] for inp_name in node['inputs']
                                if inp_name and inp_name in rename_map]
      return node_list
  \<close>
  \<open>rename_node\<close> is one pass of the loop body, \<open>rename_nodes\<close> the loop with its counter \<open>i\<close>
  and the rename map carried along.
\<close>

definition new_node_name :: "string \<Rightarrow> bool \<Rightarrow> nat \<Rightarrow> nat \<Rightarrow> string" where
  "new_node_name prefix add_input_output n i =
     (if add_input_output then
        (if i = 0 then ''input''
         else if Suc i = n then ''output''
         else prefix @ ''layer_'' @ str_nat i)
      else prefix @ ''layer_'' @ str_nat i)"

definition rename_inputs :: "(string \<rightharpoonup> string) \<Rightarrow> string option list \<Rightarrow> string option list" where
  "rename_inputs rename_map inps =
     [rename_map inp_name. Some inp_name \<leftarrow> inps, inp_name \<noteq> [] \<and> rename_map inp_name \<noteq> None]"

definition rename_node ::
  "string \<Rightarrow> bool \<Rightarrow> nat \<Rightarrow> nat \<Rightarrow> (string \<rightharpoonup> string) \<Rightarrow> node \<Rightarrow> (string \<rightharpoonup> string) \<times> node" where
  "rename_node prefix add_input_output n i rename_map node =
     (let (rename_map1, node1) =
            (if rename_map (name node) = None then
               (let new_name = new_node_name prefix add_input_output n i
                in (rename_map(name node \<mapsto> new_name), node\<lparr>name := new_name\<rparr>))
             else (rename_map, node));
          node2 = (if inputs node1 \<noteq> []
                   then node1\<lparr>inputs := rename_inputs rename_map1 (inputs node1)\<rparr>
                   else node1)
      in (rename_map1, node2))"

fun rename_nodes ::
  "string \<Rightarrow> bool \<Rightarrow> nat \<Rightarrow> nat \<Rightarrow> (string \<rightharpoonup> string) \<Rightarrow> node list \<Rightarrow> node list" where
  "rename_nodes prefix add_input_output n i rename_map [] = []"
| "rename_nodes prefix add_input_output n i rename_map (node # rest) =
     (case rename_node prefix add_input_output n i rename_map node of
        (rename_map1, node1) \<Rightarrow>
          node1 # rename_nodes prefix add_input_output n (Suc i) rename_map1 rest)"

definition rename_dag_node_list :: "node list \<Rightarrow> string \<Rightarrow> bool \<Rightarrow> bool \<Rightarrow> node list" where
  "rename_dag_node_list node_list prefix0 rename_input_output add_input_output =
     (let prefix = (if prefix0 \<noteq> [] then prefix0 @ ''_'' else []);
          rename_map = (if \<not> rename_input_output
                        then [''input'' \<mapsto> ''input'', ''output'' \<mapsto> ''output'']
                        else Map.empty)
      in rename_nodes prefix add_input_output (length node_list) 0 rename_map node_list)"

text \<open>
  The renamer in the words of its contract, to compare with the loop above. \<open>spec_renamed\<close> is
  the new name of a reference \<open>s\<close> once the nodes with the given old names have received the
  given new names: a sentinel name stands for itself when \<open>input\<close> and \<open>output\<close> are not to be
  renamed; otherwise it is the new name of the first node whose old name is \<open>s\<close>, and \<open>None\<close>
  when \<open>s\<close> was not renamed. \<open>spec_inputs\<close> substitutes the new names in an \<open>inputs\<close> list, in
  order, and drops every entry that is \<open>None\<close>, empty, or not renamed.
\<close>

definition spec_renamed :: "bool \<Rightarrow> string list \<Rightarrow> string list \<Rightarrow> string \<Rightarrow> string option" where
  "spec_renamed rename_input_output old_names new_names s =
     (if \<not> rename_input_output \<and> (s = ''input'' \<or> s = ''output'') then Some s
      else map_of (zip old_names new_names) s)"

definition spec_inputs :: "(string \<Rightarrow> string option) \<Rightarrow> string option list \<Rightarrow> string option list" where
  "spec_inputs renamed inps =
     map Some (List.map_filter
       (\<lambda>inp. case inp of None \<Rightarrow> None | Some s \<Rightarrow> if s = [] then None else renamed s) inps)"

section \<open>Architectures, the search space and its collaborators\<close>

text \<open>
  The compiled architecture (\<open>SegmentationNasModel\<close>) and the resource measurement
  (\<open>tw.ModelStats\<close>) are external. \<open>arch\<close> holds the attributes of a compiled model that the
  search space reads: the values of its ordered \<open>graph\<close> dict, the channel configuration, the
  post-upsample layer count, the image size and the keys of \<open>edge_dict\<close>. The calls into the
  collaborators are the fields of \<open>collaborators\<close>: the constructor, \<open>validate_forward\<close> (giving
  the output shape), \<open>to_hash\<close>, the MAC count \<open>MAdd\<close> and \<open>sample_model\<close>.
  The fields of \<open>search_space\<close> are the attributes set by \<open>__init__\<close>; those whose name another
  record already uses carry the prefix \<open>self_\<close>.
\<close>

record channels =
  base_channels :: int
  delta_channels :: int
  mult_delta :: bool

record arch =
  graph :: "node list"
  channels_per_scale :: channels
  post_upsample_layers :: int
  img_size :: int
  edge_dict :: "string list"

record metadata =
  datasetname :: string
  archid :: string
  parent :: "string option"
  macs :: "int option"
  parents :: "string option"

record arch_meta =
  arch :: arch
  metadata :: metadata

record search_space =
  self_datasetname :: string
  operations :: "string list"
  encoder_features :: "string list"
  min_mac :: int
  max_mac :: int
  min_layers :: int
  max_layers :: int
  max_downsample_factor :: int
  max_skip_connection_length :: int
  max_scale_delta :: int
  post_upsample_layers_list :: "int list"
  base_channels_list :: "int list"
  delta_channels_list :: "int list"
  self_mult_delta :: bool
  skip_connections :: bool
  self_img_size :: int

record collaborators =
  construct :: "node list \<Rightarrow> channels \<Rightarrow> int \<Rightarrow> int \<Rightarrow> error + arch"
  validate_forward :: "arch \<Rightarrow> error + int list"
  to_hash :: "arch \<Rightarrow> string"
  MAdd :: "arch \<Rightarrow> int"
  sample_model :: "search_space \<Rightarrow> int \<Rightarrow> rng \<Rightarrow> error + (arch \<times> rng)"

section \<open>The encoder\<close>

text \<open>
  \<^verbatim>\<open>
  def get_arch_repr(self, arch):
      graph = arch.arch.graph
      scale_levels = [1, 2, 4, 8, 16]
      onehot = lambda x, categories: [category == x for category in categories]
      x = []
      if 'scale' in self.encoder_features:
          x.append([onehot(n['scale'], scale_levels) for n in graph.values()])
      if 'op' in self.encoder_features:
          x.append([onehot(n['op'], self.operations) for n in graph.values()])
      if 'channels' in self.encoder_features:
          ch_map = arch.arch.channels_per_scale
          x.append([[ch_map['base_channels'] / 64, ch_map['delta_channels'] / 64]
                    for _ in graph.values()])
      x = torch.cat([torch.tensor(xi, dtype=torch.float) for xi in x], axis=1)
      assert len(x.shape) == 2 and x.shape[0] == len(graph), 'Invalid node features'
      nodename2idx = {n['name']: i for i, n in enumerate(graph.values())}
      edges = [[nodename2idx[v_name], nodename2idx[u['name']]]
               for u in graph.values() if u['inputs'] for v_name in u['inputs']]
      edge_index = torch.tensor(edges, dtype=torch.long).T
      return torch_geometric.data.Data(x=x, edge_index=edge_index, archid=arch.metadata['archid'])
  \<close>
  A tensor is the list of its rows; an entry of the float tensor \<open>x\<close> (field \<open>data_x\<close>) is the rational it stands
  for. \<open>torch_cat_axis1\<close> joins the feature groups row by row; it fails on no group at all, and a
  graph without nodes gives no two-dimensional tensor, so the assertion fails.
\<close>

record data =
  data_x :: "rat list list"
  data_edge_index :: "nat list list"
  data_archid :: string

definition onehot :: "'a \<Rightarrow> 'a list \<Rightarrow> bool list" where
  "onehot v categories = map (\<lambda>category. category = v) categories"

definition scale_levels :: "int list" where
  "scale_levels = [1, 2, 4, 8, 16]"

definition float_of_bool :: "bool \<Rightarrow> rat" where
  "float_of_bool b = (if b then 1 else 0)"

definition node_features :: "search_space \<Rightarrow> arch_meta \<Rightarrow> rat list list list" where
  "node_features self am =
     (let g = graph (arch am) in
        (if ''scale'' \<in> set (encoder_features self)
         then [[map float_of_bool (onehot (scale n) scale_levels). n \<leftarrow> g]] else [])
      @ (if ''op'' \<in> set (encoder_features self)
         then [[map float_of_bool (onehot (op n) (map Some (operations self))). n \<leftarrow> g]] else [])
      @ (if ''channels'' \<in> set (encoder_features self)
         then (let ch_map = channels_per_scale (arch am)
               in [[[of_int (base_channels ch_map) / 64, of_int (delta_channels ch_map) / 64]. n \<leftarrow> g]])
         else []))"

definition torch_cat_axis1 :: "nat \<Rightarrow> rat list list list \<Rightarrow> error + rat list list" where
  "torch_cat_axis1 rows xs =
     (if xs = [] then Inl RuntimeError
      else if rows = 0 then Inl AssertionError
      else Inr [concat (map (\<lambda>xi. xi ! i) xs). i \<leftarrow> [0..<rows]])"

fun traverse :: "('a \<Rightarrow> error + 'b) \<Rightarrow> 'a list \<Rightarrow> error + 'b list" where
  "traverse f [] = Inr []"
| "traverse f (a # as) =
     (case f a of
        Inl e \<Rightarrow> Inl e
      | Inr b \<Rightarrow> (case traverse f as of Inl e \<Rightarrow> Inl e | Inr bs \<Rightarrow> Inr (b # bs)))"

definition edge_of :: "(string \<times> nat) list \<Rightarrow> string option \<times> node \<Rightarrow> error + nat list" where
  "edge_of nodename2idx = (\<lambda>(v_name, u).
     (case v_name of
        None \<Rightarrow> Inl KeyError
      | Some v \<Rightarrow>
          (case dict_get nodename2idx v of
             Inl e \<Rightarrow> Inl e
           | Inr vi \<Rightarrow>
               (case dict_get nodename2idx (name u) of
                  Inl e \<Rightarrow> Inl e
                | Inr ui \<Rightarrow> Inr [vi, ui]))))"

definition get_arch_repr :: "search_space \<Rightarrow> arch_meta \<Rightarrow> error + data" where
  "get_arch_repr self am =
     (let g = graph (arch am) in
      case torch_cat_axis1 (length g) (node_features self am) of
        Inl e \<Rightarrow> Inl e
      | Inr feats \<Rightarrow>
          (let nodename2idx = enumerate_dict (map name g)
           in case traverse (edge_of nodename2idx)
                     [(v_name, u). u \<leftarrow> g, inputs u \<noteq> [], v_name \<leftarrow> inputs u] of
                Inl e \<Rightarrow> Inl e
              | Inr edges \<Rightarrow>
                  Inr \<lparr>data_x = feats, data_edge_index = transpose edges,
                       data_archid = archid (metadata am)\<rparr>))"

section \<open>Random sampling\<close>

text \<open>
  \<^verbatim>\<open>
  def random_sample(self):
      found_valid = False
      while not found_valid:
          num_layers = random.randint(self.min_layers, self.max_layers)
          model = SegmentationNasModel.sample_model(..., nb_layers=num_layers, ...)
          input_tensor_shape = (1, 3, model.img_size, model.img_size)
          model_stats = tw.ModelStats(model, input_tensor_shape, clone_model=True)
          if model_stats.MAdd > self.min_mac and model_stats.MAdd < self.max_mac:
              found_valid = True
          meta_data = {'datasetname': self.datasetname, 'archid': model.to_hash(),
                       'parent': None, 'macs': model_stats.MAdd}
          arch_meta = ArchWithMetaData(model, meta_data)
      return arch_meta
  \<close>
  The loop has no bound, so the function is partial: \<open>None\<close> is the run that never finds a
  model within the budget. A key that a metadata dict does not have is \<open>None\<close> in the record
  (\<open>parents\<close> here).
\<close>

partial_function (option) random_sample ::
  "collaborators \<Rightarrow> search_space \<Rightarrow> rng \<Rightarrow> (error + arch_meta \<times> rng) option" where
  "random_sample E self g =
     (case randint (min_layers self) (max_layers self) g of
        Inl e \<Rightarrow> Some (Inl e)
      | Inr (num_layers, g1) \<Rightarrow>
          (case sample_model E self num_layers g1 of
             Inl e \<Rightarrow> Some (Inl e)
           | Inr (model, g2) \<Rightarrow>
               (let found_valid = (min_mac self < MAdd E model \<and> MAdd E model < max_mac self);
                    meta_data = \<lparr>datasetname = self_datasetname self, archid = to_hash E model,
                                 parent = None, macs = Some (MAdd E model), parents = None\<rparr>;
                    arch_meta = \<lparr>arch = model, metadata = meta_data\<rparr>
                in if found_valid then Some (Inr (arch_meta, g2))
                   else random_sample E self g2)))"

definition sample_ok :: "collaborators \<Rightarrow> search_space \<Rightarrow> error + arch_meta \<times> rng \<Rightarrow> bool" where
  "sample_ok E self r =
     (case r of
        Inl e \<Rightarrow> True
      | Inr (am, g') \<Rightarrow>
          min_mac self < MAdd E (arch am) \<and> MAdd E (arch am) < max_mac self
          \<and> macs (metadata am) = Some (MAdd E (arch am)) \<and> parent (metadata am) = None)"

section \<open>Neighbor generation\<close>

text \<open>
  \<^verbatim>\<open>
  def get_neighbors(self, base_model, patience=20):
      parent_id = base_model.metadata['archid']
      neighbors = []
      nb_tries = 0
      while nb_tries < patience and len(neighbors) == 0:
          nb_tries += 1
          graph = copy.deepcopy(list(base_model.arch.graph.values()))
          channels_per_scale = copy.deepcopy(base_model.arch.channels_per_scale)
          assert len(graph) > 1
          assert graph[-1]['name'] == 'output'
          assert graph[0]['name'] == 'input'
          channels_per_scale = {
              'base_channels': random_neighbor(self.base_channels_list, channels_per_scale['base_channels']),
              'delta_channels': random_neighbor(self.delta_channels_list, channels_per_scale['delta_channels']),
              'mult_delta': base_model.arch.channels_per_scale['mult_delta']}
          post_upsample_layers = random_neighbor(self.post_upsample_layers_list,
                                                 base_model.arch.post_upsample_layers)
          chosen_node_idx = random.randint(1, len(graph) - 1)
          node = graph[chosen_node_idx]
          if node['name'] != 'output':
              node['op'] = random.choice(self.operations)
          max_inputs = 3
          edges = [tuple(k.split('-')) for k in base_model.arch.edge_dict.keys()]
          out_degree = lambda x: len([(orig, dest) for orig, dest in edges if orig == x])
          if node['name'] != 'input':
              k = min(chosen_node_idx, random.randint(1, max_inputs))
              input_idxs = random.sample(range(chosen_node_idx), k)
              node['inputs'] = [input for input in node['inputs'] if out_degree(input) <= 1]
              node['inputs'] += [graph[idx]['name'] for idx in input_idxs
                                 if graph[idx]['name'] not in node['inputs']]
          try:
              nbr_model = SegmentationNasModel(graph, channels_per_scale, post_upsample_layers,
                                               img_size=self.img_size)
              out_shape = nbr_model.validate_forward(
                  torch.randn(1, 3, nbr_model.img_size, nbr_model.img_size)).shape
              assert out_shape == torch.Size([1, 19, nbr_model.img_size, nbr_model.img_size])
          except Exception as e:
              logger.info(f'Neighbor generation {base_model.arch.to_hash()} -> {nbr_model.to_hash()} failed')
              logger.info(str(e))
              continue
          input_tensor_shape = (1, 3, nbr_model.img_size, nbr_model.img_size)
          model_stats = tw.ModelStats(nbr_model, input_tensor_shape, clone_model=True)
          if model_stats.MAdd > self.min_mac and model_stats.MAdd < self.max_mac:
              neighbors += [ArchWithMetaData(nbr_model, {
                  'datasetname': self.datasetname, 'archid': nbr_model.to_hash(),
                  'parent': parent_id, 'macs': model_stats.MAdd})]
          else:
              logger.info(...)
      return neighbors
  \<close>
  \<open>split_on\<close> is \<open>str.split\<close> with a one-character separator. Unpacking \<open>orig, dest\<close> from an
  edge tuple that has not exactly two parts raises \<open>ValueError\<close> (\<open>unpack2\<close>); \<open>out_degree\<close> is
  only called for the inputs of the chosen node. \<open>mutate_op\<close> and \<open>mutate_inputs\<close> are the two
  mutations of the chosen node, \<open>mutate_graph\<close> the choice of the node and the write back into
  the copied list.

  \<open>get_neighbors_attempt\<close> is one pass of the loop body. The local variable \<open>nbr_model\<close> is an
  \<open>arch option\<close>: \<open>None\<close> while no assignment to it has completed in this call. The handler of
  the \<open>try\<close> block evaluates \<open>nbr_model.to_hash()\<close> for its log message, which raises
  \<open>UnboundLocalError\<close> when the variable is still unbound. Log output is not modelled.
  \<open>get_neighbors_loop\<close> is the \<open>while\<close> loop; it also returns the final \<open>nb_tries\<close>.
\<close>

fun split_on :: "char \<Rightarrow> string \<Rightarrow> string list" where
  "split_on c [] = [[]]"
| "split_on c (ch # rest) =
     (if ch = c then [] # split_on c rest
      else (case split_on c rest of
              [] \<Rightarrow> [[ch]]
            | w # ws \<Rightarrow> (ch # w) # ws))"

definition unpack2 :: "'a list \<Rightarrow> error + ('a \<times> 'a)" where
  "unpack2 t = (case t of [orig, dest] \<Rightarrow> Inr (orig, dest) | _ \<Rightarrow> Inl ValueError)"

definition out_degree :: "string list list \<Rightarrow> string option \<Rightarrow> error + nat" where
  "out_degree edges v =
     (case traverse unpack2 edges of
        Inl e \<Rightarrow> Inl e
      | Inr pairs \<Rightarrow> Inr (length [(orig, dest) \<leftarrow> pairs. Some orig = v]))"

definition keep_unshared :: "string list list \<Rightarrow> string option list \<Rightarrow> error + string option list" where
  "keep_unshared edges inps =
     (case traverse (\<lambda>inp. case out_degree edges inp of
                              Inl e \<Rightarrow> Inl e
                            | Inr d \<Rightarrow> Inr (inp, d \<le> 1)) inps of
        Inl e \<Rightarrow> Inl e
      | Inr marked \<Rightarrow> Inr [inp. (inp, keep) \<leftarrow> marked, keep])"

definition max_inputs :: int where
  "max_inputs = 3"

definition mutate_op :: "search_space \<Rightarrow> node \<Rightarrow> rng \<Rightarrow> error + (node \<times> rng)" where
  "mutate_op self node0 g =
     (if name node0 \<noteq> ''output'' then
        (case choice (operations self) g of
           Inl e \<Rightarrow> Inl e
         | Inr (new_op, g') \<Rightarrow> Inr (node0\<lparr>op := Some new_op\<rparr>, g'))
      else Inr (node0, g))"

definition mutate_inputs ::
  "arch \<Rightarrow> node list \<Rightarrow> int \<Rightarrow> node \<Rightarrow> rng \<Rightarrow> error + (node \<times> rng)" where
  "mutate_inputs base_arch graph0 chosen_node_idx node0 g =
     (let edges = map (split_on CHR ''-'') (edge_dict base_arch) in
      if name node0 \<noteq> ''input'' then
        (case randint 1 max_inputs g of
           Inl e \<Rightarrow> Inl e
         | Inr (r, g1) \<Rightarrow>
             (let k = min chosen_node_idx r in
              case sample [0..<nat chosen_node_idx] k g1 of
                Inl e \<Rightarrow> Inl e
              | Inr (input_idxs, g2) \<Rightarrow>
                  (case keep_unshared edges (inputs node0) of
                     Inl e \<Rightarrow> Inl e
                   | Inr kept \<Rightarrow>
                       Inr (node0\<lparr>inputs := kept @
                              [Some (name (graph0 ! idx)). idx \<leftarrow> input_idxs,
                                 Some (name (graph0 ! idx)) \<notin> set kept]\<rparr>, g2))))
      else Inr (node0, g))"

definition mutate_graph ::
  "search_space \<Rightarrow> arch \<Rightarrow> node list \<Rightarrow> rng \<Rightarrow> error + (node list \<times> rng)" where
  "mutate_graph self base_arch graph0 g =
     (case randint 1 (int (length graph0) - 1) g of
        Inl e \<Rightarrow> Inl e
      | Inr (chosen_node_idx, g1) \<Rightarrow>
          (case py_index graph0 chosen_node_idx of
             Inl e \<Rightarrow> Inl e
           | Inr node0 \<Rightarrow>
               (case mutate_op self node0 g1 of
                  Inl e \<Rightarrow> Inl e
                | Inr (node1, g2) \<Rightarrow>
                    (case mutate_inputs base_arch graph0 chosen_node_idx node1 g2 of
                       Inl e \<Rightarrow> Inl e
                     | Inr (node2, g3) \<Rightarrow>
                         Inr (graph0[nat chosen_node_idx := node2], g3)))))"

definition get_neighbors_attempt ::
  "collaborators \<Rightarrow> search_space \<Rightarrow> arch_meta \<Rightarrow> string \<Rightarrow> arch_meta list \<Rightarrow> arch option \<Rightarrow> rng
     \<Rightarrow> error + (arch_meta list \<times> arch option \<times> rng)" where
  "get_neighbors_attempt E self base_model parent_id neighbors nbr_model g =
     (let graph0 = graph (arch base_model);
          channels0 = channels_per_scale (arch base_model)
      in if \<not> 1 < length graph0 then Inl AssertionError
         else if name (last graph0) \<noteq> ''output'' then Inl AssertionError
         else if name (hd graph0) \<noteq> ''input'' then Inl AssertionError
         else
          (case random_neighbor (base_channels_list self) (base_channels channels0) g of
             Inl e \<Rightarrow> Inl e
           | Inr (new_base, g1) \<Rightarrow>
          (case random_neighbor (delta_channels_list self) (delta_channels channels0) g1 of
             Inl e \<Rightarrow> Inl e
           | Inr (new_delta, g2) \<Rightarrow>
          (case random_neighbor (post_upsample_layers_list self)
                  (post_upsample_layers (arch base_model)) g2 of
             Inl e \<Rightarrow> Inl e
           | Inr (new_post_upsample_layers, g3) \<Rightarrow>
          (case mutate_graph self (arch base_model) graph0 g3 of
             Inl e \<Rightarrow> Inl e
           | Inr (graph1, g4) \<Rightarrow>
          (case construct E graph1
                  \<lparr>base_channels = new_base, delta_channels = new_delta,
                   mult_delta = mult_delta channels0\<rparr>
                  new_post_upsample_layers (self_img_size self) of
             Inl e \<Rightarrow>
               (case nbr_model of
                  None \<Rightarrow> Inl UnboundLocalError
                | Some stale \<Rightarrow> Inr (neighbors, nbr_model, g4))
           | Inr m \<Rightarrow>
               (case validate_forward E m of
                  Inl e \<Rightarrow> Inr (neighbors, Some m, g4)
                | Inr out_shape \<Rightarrow>
                    (if out_shape \<noteq> [1, 19, img_size m, img_size m]
                     then Inr (neighbors, Some m, g4)
                     else if min_mac self < MAdd E m \<and> MAdd E m < max_mac self
                     then Inr (neighbors @
                            [\<lparr>arch = m,
                              metadata = \<lparr>datasetname = self_datasetname self,
                                           archid = to_hash E m, parent = Some parent_id,
                                           macs = Some (MAdd E m), parents = None\<rparr>\<rparr>],
                            Some m, g4)
                     else Inr (neighbors, Some m, g4)))))))))"

function get_neighbors_loop ::
  "collaborators \<Rightarrow> search_space \<Rightarrow> arch_meta \<Rightarrow> string \<Rightarrow> int \<Rightarrow> int \<Rightarrow> arch_meta list \<Rightarrow> arch option
     \<Rightarrow> rng \<Rightarrow> error + (arch_meta list \<times> int \<times> rng)" where
  "get_neighbors_loop E self base_model parent_id patience nb_tries neighbors nbr_model g =
     (if nb_tries < patience \<and> length neighbors = 0 then
        (case get_neighbors_attempt E self base_model parent_id neighbors nbr_model g of
           Inl e \<Rightarrow> Inl e
         | Inr (neighbors', nbr_model', g') \<Rightarrow>
             get_neighbors_loop E self base_model parent_id patience (nb_tries + 1)
               neighbors' nbr_model' g')
      else Inr (neighbors, nb_tries, g))"
  by pat_completeness auto
termination
  by (relation "measure (\<lambda>(E, self, base_model, parent_id, patience, nb_tries, rest).
                   nat (patience - nb_tries))") auto

definition get_neighbors ::
  "collaborators \<Rightarrow> search_space \<Rightarrow> arch_meta \<Rightarrow> int \<Rightarrow> rng \<Rightarrow> error + (arch_meta list \<times> rng)" where
  "get_neighbors E self base_model patience g =
     (let parent_id = archid (metadata base_model)
      in case get_neighbors_loop E self base_model parent_id patience 0 [] None g of
           Inl e \<Rightarrow> Inl e
         | Inr (neighbors, nb_tries, g') \<Rightarrow> Inr (neighbors, g'))"

section \<open>Crossover\<close>

text \<open>
  \<^verbatim>\<open>
  def crossover(self, model_1, model_2, patience=10):
      left_m, right_m = random.sample([model_1, model_2], 2)
      left_g, right_g = [list(m.arch.graph.values()) for m in [left_m, right_m]]
      left_g, right_g = rename_dag_node_list(left_g, 'left'), rename_dag_node_list(right_g, 'right')
      left_n, right_n = [[n['name'] for n in g] for g in [left_g, right_g]]
      if len(left_n) <= 2 or len(right_n) <= 2:
          return
      result_g = None
      nb_tries = 0
      while result_g is None and nb_tries < patience:
          left_g, right_g = copy.deepcopy(left_g), copy.deepcopy(right_g)
          nb_tries += 1
          left_pivot_idx = random.randint(1, len(left_n) - 2)
          left_pivot = left_n[left_pivot_idx]
          right_candidates = [i for i, fields in enumerate(right_g)
                              if fields['scale'] == left_g[left_pivot_idx]['scale'] and
                              0 < i < (len(right_n) - 1)]
          if len(right_candidates) > 0:
              right_pivot_idx = random.choice(right_candidates)
              left_half = left_g[:left_pivot_idx + 1]
              right_half = right_g[right_pivot_idx:]
              right_node2idx = {node: i for i, node in enumerate(right_n)}
              for fields in right_half[::-1]:
                  for inp_idx, inp in enumerate(fields['inputs']):
                      if inp not in right_n[right_pivot_idx:]:
                          candidates = [n['name'] for n in left_half
                                        if n['scale'] == right_g[right_node2idx[inp]]['scale']]
                          fields['inputs'][inp_idx] = (random.choice(candidates)
                                                       if len(candidates) > 0 else None)
              right_half[-1]['name'] = 'output'
              if left_pivot not in right_half[0]['inputs']:
                  right_half[0]['inputs'].append(left_pivot)
              result_g = rename_dag_node_list(left_half + right_half, add_input_output=True)
      if result_g:
          ch_map = random.choice([left_m.arch.channels_per_scale, right_m.arch.channels_per_scale])
          post_upsample_layers = random.choice([left_m.arch.post_upsample_layers,
                                                right_m.arch.post_upsample_layers])
          result_g = self.load_from_graph(result_g, {...ch_map...}, post_upsample_layers)
          result_g.metadata['parents'] = left_m.metadata['archid'] + ',' + right_m.metadata['archid']
          return result_g
  \<close>
  \<open>repair_input\<close> is the body of the inner loop for one entry of \<open>inputs\<close>, \<open>repair_inputs\<close> the
  inner loop, \<open>repair_nodes\<close> the outer loop; \<open>splice\<close> runs it over the reversed right half and
  restores the order. The lists are values here: the code writes the repaired entries into the
  deep copies made at the top of the attempt, and no two nodes of a renamed graph share one
  non-empty \<open>inputs\<close> list. \<open>crossover_attempt\<close> is one pass of the \<open>while\<close> loop and
  \<open>crossover_loop\<close> the loop. \<open>crossover_merge\<close> is the function up to the final \<open>if\<close>: it returns
  the two parents in their chosen order and the merged node list \<open>result_g\<close>, or \<open>None\<close>.
  \<open>crossover\<close> hands a merged list to the compiler, whose errors are not caught here.
\<close>

definition right_candidates :: "node list \<Rightarrow> node list \<Rightarrow> nat \<Rightarrow> nat list" where
  "right_candidates left_g right_g left_pivot_idx =
     [i. (i, flds) \<leftarrow> enumerate 0 right_g,
         scale flds = scale (left_g ! left_pivot_idx) \<and> 0 < i \<and> int i < int (length right_g) - 1]"

definition repair_input ::
  "node list \<Rightarrow> node list \<Rightarrow> string list \<Rightarrow> nat \<Rightarrow> string option \<Rightarrow> rng
     \<Rightarrow> error + (string option \<times> rng)" where
  "repair_input left_half right_g right_n right_pivot_idx inp g =
     (if inp \<notin> set (map Some (drop right_pivot_idx right_n)) then
        (case inp of
           None \<Rightarrow> Inl KeyError
         | Some inp_name \<Rightarrow>
             (case dict_get (enumerate_dict right_n) inp_name of
                Inl e \<Rightarrow> Inl e
              | Inr j \<Rightarrow>
                  (let candidates = [name n. n \<leftarrow> left_half, scale n = scale (right_g ! j)]
                   in if 0 < length candidates then
                        (case choice candidates g of
                           Inl e \<Rightarrow> Inl e
                         | Inr (c, g') \<Rightarrow> Inr (Some c, g'))
                      else Inr (None, g))))
      else Inr (inp, g))"

fun repair_inputs ::
  "node list \<Rightarrow> node list \<Rightarrow> string list \<Rightarrow> nat \<Rightarrow> string option list \<Rightarrow> rng
     \<Rightarrow> error + (string option list \<times> rng)" where
  "repair_inputs left_half right_g right_n right_pivot_idx [] g = Inr ([], g)"
| "repair_inputs left_half right_g right_n right_pivot_idx (inp # rest) g =
     (case repair_input left_half right_g right_n right_pivot_idx inp g of
        Inl e \<Rightarrow> Inl e
      | Inr (inp', g') \<Rightarrow>
          (case repair_inputs left_half right_g right_n right_pivot_idx rest g' of
             Inl e \<Rightarrow> Inl e
           | Inr (rest', g'') \<Rightarrow> Inr (inp' # rest', g'')))"

fun repair_nodes ::
  "node list \<Rightarrow> node list \<Rightarrow> string list \<Rightarrow> nat \<Rightarrow> node list \<Rightarrow> rng
     \<Rightarrow> error + (node list \<times> rng)" where
  "repair_nodes left_half right_g right_n right_pivot_idx [] g = Inr ([], g)"
| "repair_nodes left_half right_g right_n right_pivot_idx (flds # rest) g =
     (case repair_inputs left_half right_g right_n right_pivot_idx (inputs flds) g of
        Inl e \<Rightarrow> Inl e
      | Inr (inps, g') \<Rightarrow>
          (case repair_nodes left_half right_g right_n right_pivot_idx rest g' of
             Inl e \<Rightarrow> Inl e
           | Inr (rest', g'') \<Rightarrow> Inr (flds\<lparr>inputs := inps\<rparr> # rest', g'')))"

definition rename_end_node :: "node list \<Rightarrow> node list" where
  "rename_end_node right_half = right_half[length right_half - 1 := (last right_half)\<lparr>name := ''output''\<rparr>]"

definition connect_halves :: "string \<Rightarrow> node list \<Rightarrow> node list" where
  "connect_halves left_pivot right_half =
     (if Some left_pivot \<notin> set (inputs (hd right_half))
      then right_half[0 := (hd right_half)\<lparr>inputs := inputs (hd right_half) @ [Some left_pivot]\<rparr>]
      else right_half)"

definition splice ::
  "node list \<Rightarrow> node list \<Rightarrow> string list \<Rightarrow> string list \<Rightarrow> nat \<Rightarrow> nat \<Rightarrow> rng
     \<Rightarrow> error + (node list \<times> rng)" where
  "splice left_g right_g left_n right_n left_pivot_idx right_pivot_idx g =
     (let left_pivot = left_n ! left_pivot_idx;
          left_half = take (left_pivot_idx + 1) left_g;
          right_half = drop right_pivot_idx right_g
      in case repair_nodes left_half right_g right_n right_pivot_idx (rev right_half) g of
           Inl e \<Rightarrow> Inl e
         | Inr (repaired, g') \<Rightarrow>
             Inr (rename_dag_node_list
                    (left_half @ connect_halves left_pivot (rename_end_node (rev repaired)))
                    [] True True, g'))"

definition crossover_attempt ::
  "node list \<Rightarrow> node list \<Rightarrow> string list \<Rightarrow> string list \<Rightarrow> rng
     \<Rightarrow> error + (node list option \<times> rng)" where
  "crossover_attempt left_g right_g left_n right_n g =
     (case randint 1 (int (length left_n) - 2) g of
        Inl e \<Rightarrow> Inl e
      | Inr (left_pivot_idx, g1) \<Rightarrow>
          (let candidates = right_candidates left_g right_g (nat left_pivot_idx)
           in if 0 < length candidates then
                (case choice candidates g1 of
                   Inl e \<Rightarrow> Inl e
                 | Inr (right_pivot_idx, g2) \<Rightarrow>
                     (case splice left_g right_g left_n right_n (nat left_pivot_idx)
                             right_pivot_idx g2 of
                        Inl e \<Rightarrow> Inl e
                      | Inr (result_g, g3) \<Rightarrow> Inr (Some result_g, g3)))
              else Inr (None, g1)))"

function crossover_loop ::
  "node list \<Rightarrow> node list \<Rightarrow> string list \<Rightarrow> string list \<Rightarrow> int \<Rightarrow> node list option \<Rightarrow> int \<Rightarrow> rng
     \<Rightarrow> error + (node list option \<times> rng)" where
  "crossover_loop left_g right_g left_n right_n patience result_g nb_tries g =
     (if result_g = None \<and> nb_tries < patience then
        (case crossover_attempt left_g right_g left_n right_n g of
           Inl e \<Rightarrow> Inl e
         | Inr (result_g', g') \<Rightarrow>
             crossover_loop left_g right_g left_n right_n patience result_g' (nb_tries + 1) g')
      else Inr (result_g, g))"
  by pat_completeness auto
termination
  by (relation "measure (\<lambda>(left_g, right_g, left_n, right_n, patience, result_g, nb_tries, g).
                   nat (patience - nb_tries))") auto

definition load_from_graph ::
  "collaborators \<Rightarrow> search_space \<Rightarrow> node list \<Rightarrow> channels \<Rightarrow> int \<Rightarrow> error + arch_meta" where
  "load_from_graph E self node_list ch post_upsample =
     (case construct E node_list ch post_upsample (self_img_size self) of
        Inl e \<Rightarrow> Inl e
      | Inr model \<Rightarrow>
          Inr \<lparr>arch = model,
               metadata = \<lparr>datasetname = self_datasetname self, archid = to_hash E model,
                            parent = None, macs = None, parents = None\<rparr>\<rparr>)"

definition crossover_merge ::
  "arch_meta \<Rightarrow> arch_meta \<Rightarrow> int \<Rightarrow> rng
     \<Rightarrow> error + ((arch_meta \<times> arch_meta) \<times> node list option \<times> rng)" where
  "crossover_merge model_1 model_2 patience g =
     (case sample [model_1, model_2] 2 g of
        Inl e \<Rightarrow> Inl e
      | Inr (ms, g1) \<Rightarrow>
          (let left_m = ms ! 0; right_m = ms ! 1;
               left_g = rename_dag_node_list (graph (arch left_m)) ''left'' True False;
               right_g = rename_dag_node_list (graph (arch right_m)) ''right'' True False;
               left_n = map name left_g; right_n = map name right_g
           in if length left_n \<le> 2 \<or> length right_n \<le> 2 then Inr ((left_m, right_m), None, g1)
              else (case crossover_loop left_g right_g left_n right_n patience None 0 g1 of
                      Inl e \<Rightarrow> Inl e
                    | Inr (result_g, g2) \<Rightarrow> Inr ((left_m, right_m), result_g, g2))))"

definition crossover ::
  "collaborators \<Rightarrow> search_space \<Rightarrow> arch_meta \<Rightarrow> arch_meta \<Rightarrow> int \<Rightarrow> rng
     \<Rightarrow> error + (arch_meta option \<times> rng)" where
  "crossover E self model_1 model_2 patience g =
     (case crossover_merge model_1 model_2 patience g of
        Inl e \<Rightarrow> Inl e
      | Inr ((left_m, right_m), result_g, g2) \<Rightarrow>
          (case result_g of
             None \<Rightarrow> Inr (None, g2)
           | Some merged \<Rightarrow>
               if merged = [] then Inr (None, g2)
               else
                 (case choice [channels_per_scale (arch left_m), channels_per_scale (arch right_m)] g2 of
                    Inl e \<Rightarrow> Inl e
                  | Inr (ch_map, g3) \<Rightarrow>
                 (case choice [post_upsample_layers (arch left_m), post_upsample_layers (arch right_m)] g3 of
                    Inl e \<Rightarrow> Inl e
                  | Inr (post_upsample, g4) \<Rightarrow>
                 (case load_from_graph E self merged
                         \<lparr>base_channels = base_channels ch_map,
                          delta_channels = delta_channels ch_map,
                          mult_delta = mult_delta ch_map\<rparr> post_upsample of
                    Inl e \<Rightarrow> Inl e
                  | Inr result \<Rightarrow>
                      Inr (Some (result\<lparr>metadata := (metadata result)
                                   \<lparr>parents := Some (archid (metadata left_m) @ '','' @
                                                      archid (metadata right_m))\<rparr>\<rparr>), g4))))))"

text \<open>
  An attempt reading the tape \<open>g\<close> finds no right pivot: the interior of the right graph has no
  node with the scale of the left pivot drawn from \<open>g\<close>.
\<close>

definition no_right_pivot :: "node list \<Rightarrow> node list \<Rightarrow> rng \<Rightarrow> bool" where
  "no_right_pivot left_g right_g g =
     (case randint 1 (int (length left_g) - 2) g of
        Inl e \<Rightarrow> False
      | Inr (left_pivot_idx, g1) \<Rightarrow> right_candidates left_g right_g (nat left_pivot_idx) = [])"

section \<open>Graph invariants\<close>

text \<open>
  \<open>no_self_input\<close>: no node lists its own name among its inputs. \<open>valid_parent\<close>: node names
  are unique and no node lists itself; every graph that satisfies the data-model invariant
  (unique names, inputs naming strictly earlier nodes) is a valid parent.
  \<open>inputs_earlier\<close>: every entry of the inputs of the node at position \<open>k\<close> is the name of a node
  at a position below \<open>k\<close>. \<open>graph_invariant\<close>: the list starts with \<open>input\<close>, ends with
  \<open>output\<close>, its inputs reference strictly earlier nodes only, and its names are unique, so a
  name denotes one position and the graph has no cycle.
\<close>

definition no_self_input :: "node list \<Rightarrow> bool" where
  "no_self_input g = list_all (\<lambda>nd. Some (name nd) \<notin> set (inputs nd)) g"

definition valid_parent :: "node list \<Rightarrow> bool" where
  "valid_parent g = (distinct (map name g) \<and> no_self_input g)"

definition inputs_earlier :: "node list \<Rightarrow> bool" where
  "inputs_earlier g =
     list_all (\<lambda>k. list_all (\<lambda>inp. inp \<in> set (map (Some \<circ> name) (take k g))) (inputs (g ! k)))
       [0..<length g]"

definition graph_invariant :: "node list \<Rightarrow> bool" where
  "graph_invariant g =
     (g \<noteq> [] \<and> name (hd g) = ''input'' \<and> name (last g) = ''output'' \<and> inputs_earlier g
      \<and> distinct (map name g))"

section \<open>Example inputs\<close>

text \<open>
  A base architecture with four interior nodes, a search space, and three stand-ins for the
  external compiler: one that builds and validates every graph, one whose constructor always
  fails, and one that builds every graph but whose forward validation always fails.
\<close>

definition example_graph :: "node list" where
  "example_graph =
     [\<lparr>name = ''input'', op = None, scale = 1, inputs = []\<rparr>,
      \<lparr>name = ''layer_0'', op = Some ''conv3x3'', scale = 2, inputs = [Some ''input'']\<rparr>,
      \<lparr>name = ''layer_1'', op = Some ''conv5x5'', scale = 4, inputs = [Some ''layer_0'']\<rparr>,
      \<lparr>name = ''layer_2'', op = Some ''conv3x3'', scale = 2, inputs = [Some ''layer_1'']\<rparr>,
      \<lparr>name = ''layer_3'', op = Some ''conv3x3'', scale = 1,
         inputs = [Some ''layer_2'', Some ''layer_0'']\<rparr>,
      \<lparr>name = ''output'', op = Some ''conv3x3'', scale = 1, inputs = [Some ''layer_3'']\<rparr>]"

definition example_arch :: arch where
  "example_arch =
     \<lparr>graph = example_graph,
      channels_per_scale = \<lparr>base_channels = 16, delta_channels = 8, mult_delta = False\<rparr>,
      post_upsample_layers = 1, img_size = 256,
      edge_dict = [''input-layer_0'', ''layer_0-layer_1'', ''layer_1-layer_2'',
                   ''layer_2-layer_3'', ''layer_0-layer_3'', ''layer_3-output'']\<rparr>"

definition example_base :: arch_meta where
  "example_base =
     \<lparr>arch = example_arch,
      metadata = \<lparr>datasetname = ''cityscapes'', archid = ''base'', parent = None,
                   macs = Some 500, parents = None\<rparr>\<rparr>"

definition example_space :: search_space where
  "example_space =
     \<lparr>self_datasetname = ''cityscapes'', operations = [''conv3x3'', ''conv5x5''],
      encoder_features = [''scale'', ''channels'', ''op''],
      min_mac = 0, max_mac = 1000, min_layers = 1, max_layers = 12,
      max_downsample_factor = 16, max_skip_connection_length = 3, max_scale_delta = 1,
      post_upsample_layers_list = [1, 2, 3],
      base_channels_list = [8, 16, 24, 32, 40, 48],
      delta_channels_list = [8, 16, 24, 32, 40, 48],
      self_mult_delta = False, skip_connections = True, self_img_size = 256\<rparr>"

definition compiled :: "node list \<Rightarrow> channels \<Rightarrow> int \<Rightarrow> int \<Rightarrow> arch" where
  "compiled node_list ch post_upsample image_size =
     \<lparr>graph = node_list, channels_per_scale = ch, post_upsample_layers = post_upsample,
      img_size = image_size, edge_dict = []\<rparr>"

definition working_compiler :: collaborators where
  "working_compiler =
     \<lparr>construct = (\<lambda>node_list ch post_upsample image_size. Inr (compiled node_list ch post_upsample image_size)),
      validate_forward = (\<lambda>m. Inr [1, 19, img_size m, img_size m]),
      to_hash = (\<lambda>m. concat (map name (graph m))),
      MAdd = (\<lambda>m. 500),
      sample_model = (\<lambda>self nb_layers g. Inr (example_arch, g))\<rparr>"

definition failing_compiler :: collaborators where
  "failing_compiler = working_compiler\<lparr>construct := (\<lambda>node_list ch post_upsample image_size. Inl StructuralError)\<rparr>"

definition unrealizable_compiler :: collaborators where
  "unrealizable_compiler = working_compiler\<lparr>validate_forward := (\<lambda>m. Inl StructuralError)\<rparr>"

text \<open>A three-node architecture whose only interior node has scale \<open>s\<close>.\<close>

definition small_arch :: "int \<Rightarrow> arch" where
  "small_arch s =
     \<lparr>graph = [\<lparr>name = ''input'', op = None, scale = 1, inputs = []\<rparr>,
               \<lparr>name = ''layer_0'', op = Some ''conv3x3'', scale = s, inputs = [Some ''input'']\<rparr>,
               \<lparr>name = ''output'', op = Some ''conv3x3'', scale = 1, inputs = [Some ''layer_0'']\<rparr>],
      channels_per_scale = \<lparr>base_channels = 16, delta_channels = 8, mult_delta = False\<rparr>,
      post_upsample_layers = 1, img_size = 256,
      edge_dict = [''input-layer_0'', ''layer_0-output'']\<rparr>"

definition small_model :: "int \<Rightarrow> arch_meta" where
  "small_model s =
     \<lparr>arch = small_arch s,
      metadata = \<lparr>datasetname = ''cityscapes'', archid = ''small'' @ str_nat (nat s), parent = None,
                   macs = Some 100, parents = None\<rparr>\<rparr>"

text \<open>Two renamed three-node parents and the list their splice at the interior nodes gives.\<close>

definition merged_example :: "node list" where
  "merged_example =
     [\<lparr>name = ''input'', op = None, scale = 1, inputs = []\<rparr>,
      \<lparr>name = ''layer_1'', op = Some ''conv3x3'', scale = 2, inputs = [Some ''input'']\<rparr>,
      \<lparr>name = ''layer_2'', op = Some ''conv3x3'', scale = 2,
         inputs = [Some ''input'', Some ''layer_1'']\<rparr>,
      \<lparr>name = ''output'', op = Some ''conv3x3'', scale = 1, inputs = [Some ''layer_2'']\<rparr>]"

definition left3 :: "node list" where
  "left3 =
   [\<lparr>name = ''left_layer_0'', op = None, scale = 1, inputs = []\<rparr>,
    \<lparr>name = ''left_layer_1'', op = Some ''conv3x3'', scale = 2, inputs = [Some ''left_layer_0'']\<rparr>,
    \<lparr>name = ''left_layer_2'', op = Some ''conv3x3'', scale = 1, inputs = [Some ''left_layer_1'']\<rparr>]"

definition right3 :: "node list" where
  "right3 =
   [\<lparr>name = ''right_layer_0'', op = None, scale = 1, inputs = []\<rparr>,
    \<lparr>name = ''right_layer_1'', op = Some ''conv3x3'', scale = 2, inputs = [Some ''right_layer_0'']\<rparr>,
    \<lparr>name = ''right_layer_2'', op = Some ''conv3x3'', scale = 1, inputs = [Some ''right_layer_1'']\<rparr>]"
section \<open>Properties of the random tape and of the value-domain sampler\<close>

lemma randint_range: "randint a b g = Inr (v, g') \<Longrightarrow> a \<le> v \<and> v \<le> b \<and> g' = stl g"
proof -
  assume h: "randint a b g = Inr (v, g')"
  then have ab: "a \<le> b" and v: "v = a + int (shd g mod nat (b - a + 1))" and g: "g' = stl g"
    by (auto simp: randint_def split: if_splits)
  have "0 < nat (b - a + 1)" using ab by simp
  then have "shd g mod nat (b - a + 1) < nat (b - a + 1)" by (rule mod_less_divisor)
  then have "int (shd g mod nat (b - a + 1)) < b - a + 1" using ab by linarith
  then show ?thesis using v g by simp
qed

lemma randint_onto: "a \<le> v \<Longrightarrow> v \<le> b \<Longrightarrow> randint a b (nat (v - a) ## g) = Inr (v, g)"
  by (simp add: randint_def)

lemma choice_onto: "i < length xs \<Longrightarrow> choice xs (i ## g) = Inr (xs ! i, g)"
  by (auto simp add: choice_def)

lemma map_of_fold_update:
  "map_of (fold (\<lambda>(i, x) d. AList.update x i d) ps d) = fold (\<lambda>(i, x) m. m(x \<mapsto> i)) ps (map_of d)"
  by (induction ps arbitrary: d) (auto simp: update_conv')

lemma keys_fold_update:
  "fst ` set (fold (\<lambda>(i, x) d. AList.update x i d) ps d) = snd ` set ps \<union> fst ` set d"
proof (induction ps arbitrary: d)
  case Nil show ?case by simp
next
  case (Cons p ps)
  obtain i x where p: "p = (i, x)" by (cases p)
  have "fst ` set (fold (\<lambda>(i, x) d. AList.update x i d) (p # ps) d)
        = snd ` set ps \<union> fst ` set (AList.update x i d)"
    using Cons.IH[of "AList.update x i d"] p by simp
  also have "\<dots> = snd ` set (p # ps) \<union> fst ` set d"
    using p by (auto simp: dom_update)
  finally show ?case .
qed

lemma fold_upd_enumerate:
  "fold (\<lambda>(i, x) m. m(x \<mapsto> i)) (enumerate k xs) m v = Some i \<Longrightarrow>
     m v = Some i \<or> (k \<le> i \<and> i < k + length xs \<and> xs ! (i - k) = v)"
proof (induction xs arbitrary: k m)
  case Nil then show ?case by simp
next
  case (Cons x xs)
  from Cons.prems have "fold (\<lambda>(i, x) m. m(x \<mapsto> i)) (enumerate (Suc k) xs) (m(x \<mapsto> k)) v = Some i"
    by (simp del: fun_upd_apply)
  from Cons.IH[OF this] show ?case
    by (auto split: if_splits simp: nth_Cons')
qed

lemma enumerate_dict_keys: "fst ` set (enumerate_dict xs) = set xs"
proof -
  have "snd ` set (enumerate k xs) = set xs" for k
    by (induction xs arbitrary: k) auto
  then show ?thesis by (simp add: enumerate_dict_def keys_fold_update)
qed

lemma enumerate_dict_lookup:
  "map_of (enumerate_dict xs) v = Some i \<Longrightarrow> i < length xs \<and> xs ! i = v"
  using fold_upd_enumerate[of 0 xs Map.empty v i]
  by (simp add: enumerate_dict_def map_of_fold_update)

lemma fold_min_in: "fold (\<lambda>y m. if f y < f m then y else m) xs x \<in> set (x # xs)"
proof (induction xs arbitrary: x)
  case Nil show ?case by simp
next
  case (Cons a xs)
  have "fold (\<lambda>y m. if f y < f m then y else m) (a # xs) x
        = fold (\<lambda>y m. if f y < f m then y else m) xs (if f a < f x then a else x)" by simp
  moreover have "fold (\<lambda>y m. if f y < f m then y else m) xs (if f a < f x then a else x)
        \<in> set ((if f a < f x then a else x) # xs)" by (rule Cons.IH)
  ultimately show ?case by (auto split: if_splits)
qed

lemma py_min_key_in: "py_min_key f xs = Inr k \<Longrightarrow> k \<in> set xs"
proof (cases xs)
  case Nil then show "py_min_key f xs = Inr k \<Longrightarrow> k \<in> set xs" by simp
next
  case (Cons a list)
  assume "py_min_key f xs = Inr k"
  then have "k = fold (\<lambda>y m. if f y < f m then y else m) list a" using Cons by simp
  then show "k \<in> set xs" using fold_min_in[of f list a] Cons by simp
qed

lemma py_min_key_nonempty: "xs \<noteq> [] \<Longrightarrow> \<exists>k. py_min_key f xs = Inr k"
  by (cases xs) auto

lemma dict_get_key: "k \<in> fst ` set d \<Longrightarrow> \<exists>v. dict_get d k = Inr v \<and> map_of d k = Some v"
proof -
  assume "k \<in> fst ` set d"
  then have "map_of d k \<noteq> None" by (simp add: map_of_eq_None_iff)
  then show ?thesis by (auto simp: dict_get_def)
qed

lemma closest_idx_ok:
  assumes "xs \<noteq> []"
  shows "\<exists>i. closest_idx (enumerate_dict xs) cv = Inr i \<and> i < length xs"
proof (cases "cv \<in> fst ` set (enumerate_dict xs)")
  case True
  from dict_get_key[OF True] obtain v where v: "dict_get (enumerate_dict xs) cv = Inr v"
    "map_of (enumerate_dict xs) cv = Some v" by blast
  from enumerate_dict_lookup[OF v(2)] have "v < length xs" by simp
  then show ?thesis using True v(1) by (simp add: closest_idx_def)
next
  case False
  have "map fst (enumerate_dict xs) \<noteq> []"
    using assms enumerate_dict_keys[of xs] by auto
  from py_min_key_nonempty[OF this] obtain k where k: "py_min_key (\<lambda>k. \<bar>k - cv\<bar>) (map fst (enumerate_dict xs)) = Inr k"
    by blast
  from py_min_key_in[OF k] have "k \<in> fst ` set (enumerate_dict xs)" by simp
  from dict_get_key[OF this] obtain v where v: "dict_get (enumerate_dict xs) k = Inr v"
    "map_of (enumerate_dict xs) k = Some v" by blast
  from enumerate_dict_lookup[OF v(2)] have "v < length xs" by simp
  then show ?thesis using False k v(1) by (simp add: closest_idx_def)
qed

lemma random_neighbor_total:
  assumes "param_values \<noteq> []"
  shows "\<exists>v. random_neighbor param_values cv g = Inr (v, stl g) \<and> v \<in> set param_values"
proof -
  let ?pv = "sort param_values"
  have ne: "?pv \<noteq> []"
    using assms length_sort[of "\<lambda>x. x" param_values] by (cases "sort param_values") auto
  from closest_idx_ok[OF ne] obtain i where i: "closest_idx (enumerate_dict ?pv) cv = Inr i" "i < length ?pv"
    by blast
  let ?a = "if 0 < i then - 1 else (0::int)"
  let ?b = "if int i < int (length ?pv) - 1 then 1 else (0::int)"
  have "?a \<le> ?b" by simp
  then obtain off where off: "randint ?a ?b g = Inr (off, stl g)"
    by (simp add: randint_def)
  from randint_range[OF off] have r: "?a \<le> off" "off \<le> ?b" by simp_all
  have lo: "0 \<le> int i + off" using r(1) by (cases "0 < i") simp_all
  have hi: "int i + off < int (length ?pv)" using r(2) i(2)
    by (cases "int i < int (length ?pv) - 1") simp_all
  have "py_index ?pv (int i + off) = Inr (?pv ! nat (int i + off))"
    using lo hi by (simp add: py_index_def)
  moreover have "nat (int i + off) < length ?pv" using lo hi by linarith
  then have "?pv ! nat (int i + off) \<in> set ?pv" by (rule nth_mem)
  then have "?pv ! nat (int i + off) \<in> set param_values" by simp
  ultimately show ?thesis
    using i(1) off by (simp add: random_neighbor_def Let_def)
qed

lemmas random_neighbor_defs =
  random_neighbor_def closest_idx_def enumerate_dict_def dict_get_def randint_def py_index_def

text \<open>
  Claim C7. For a non-empty domain, whatever the current value and whatever the random draw,
  \<open>random_neighbor\<close> raises nothing and returns an element of the domain, having consumed
  one draw; on the singleton domain \<open>[8]\<close> it returns 8.
\<close>

theorem random_neighbor_in_domain:
  "(param_values \<noteq> [] \<longrightarrow>
      (\<exists>v. random_neighbor param_values current_value g = Inr (v, stl g) \<and> v \<in> set param_values))
   \<and> random_neighbor [8] current_value g = Inr (8, stl g)"
proof -
  have "\<exists>v. random_neighbor [8] current_value g = Inr (v, stl g) \<and> v \<in> set [8]"
    by (rule random_neighbor_total) simp
  then have "random_neighbor [8] current_value g = Inr (8, stl g)" by auto
  then show ?thesis using random_neighbor_total by blast
qed

theorem random_neighbor_in_domain_witness:
  "[8, 16, 24] \<noteq> ([] :: int list) \<and>
   (\<exists>v. random_neighbor [8, 16, 24] 20 (sconst 0) = Inr (v, stl (sconst 0)) \<and> v \<in> set [8, 16, 24])"
  using random_neighbor_in_domain [of "[8, 16, 24]" 20 "sconst 0"] by simp

text \<open>
  Claim C2 does not hold of the code: at an interior position the offset is drawn from
  \<open>randint(-1, 1)\<close>, which includes 0, so \<open>random_neighbor([8,16,24], 16)\<close> may return 16.
\<close>

theorem random_neighbor_interior_may_stay:
  "random_neighbor [8, 16, 24] 16 (sconst 1) = Inr (16, sconst 1)"
  by (simp add: random_neighbor_defs)

text \<open>
  Claim C2, amended. For the domain \<open>[8,16,24]\<close> and current value 16, every call returns
  8, 16 or 24, the draw choosing among the three: the anchor moves one step left, stays, or moves
  one step right.
\<close>

theorem random_neighbor_interior_outcomes:
  "random_neighbor [8, 16, 24] 16 g = Inr ([8, 16, 24] ! (shd g mod 3), stl g)"
proof -
  have "shd g mod 3 < 3" by simp
  then consider "shd g mod 3 = 0" | "shd g mod 3 = 1" | "shd g mod 3 = 2" by linarith
  then show ?thesis
    by cases (simp_all add: random_neighbor_defs)
qed

section \<open>Properties of the node renamer\<close>

lemma rename_inputs_entries:
  "inp \<in> set (rename_inputs rm inps) \<Longrightarrow> \<exists>t. inp = Some t \<and> t \<in> ran rm"
  by (auto simp: rename_inputs_def ran_def split: option.splits if_splits)

lemma rename_inputs_Nil [simp]: "rename_inputs rm [] = []"
  by (simp add: rename_inputs_def)

lemma rename_node_eq:
  "rename_node prefix aio n i rm node =
     (if rm (name node) = None
      then (rm(name node \<mapsto> new_node_name prefix aio n i),
            node\<lparr>name := new_node_name prefix aio n i,
                 inputs := rename_inputs (rm(name node \<mapsto> new_node_name prefix aio n i)) (inputs node)\<rparr>)
      else (rm, node\<lparr>inputs := rename_inputs rm (inputs node)\<rparr>))"
  by (cases node) (simp add: rename_node_def Let_def)

lemma rename_nodes_entries:
  "node' \<in> set (rename_nodes prefix aio n i rm rest) \<Longrightarrow> inp \<in> set (inputs node') \<Longrightarrow>
     \<exists>t. inp = Some t \<and> (t \<in> ran rm \<or> t \<in> name ` set (rename_nodes prefix aio n i rm rest))"
proof (induction rest arbitrary: i rm)
  case Nil then show ?case by simp
next
  case (Cons node rest)
  obtain rm1 node1 where step: "rename_node prefix aio n i rm node = (rm1, node1)"
    by (cases "rename_node prefix aio n i rm node")
  have res: "rename_nodes prefix aio n i rm (node # rest) = node1 # rename_nodes prefix aio n (Suc i) rm1 rest"
    using step by simp
  have inp1: "inputs node1 = rename_inputs rm1 (inputs node)"
    using step by (auto simp: rename_node_eq split: if_splits)
  have ran1: "ran rm1 \<subseteq> insert (name node1) (ran rm)"
  proof (cases "rm (name node) = None")
    case True
    then have "rm1 = rm(name node \<mapsto> name node1)"
      using step by (auto simp: rename_node_eq)
    then show ?thesis using ran_map_upd[of rm "name node" "name node1"] True by auto
  next
    case False
    then have "rm1 = rm" using step by (auto simp: rename_node_eq)
    then show ?thesis by auto
  qed
  from Cons.prems(1) have "node' = node1 \<or> node' \<in> set (rename_nodes prefix aio n (Suc i) rm1 rest)"
    unfolding res by simp
  then show ?case
  proof
    assume "node' = node1"
    with Cons.prems(2) inp1 have "inp \<in> set (rename_inputs rm1 (inputs node))" by simp
    from rename_inputs_entries[OF this] obtain t where "inp = Some t" "t \<in> ran rm1" by blast
    then show ?thesis unfolding res using ran1 by auto
  next
    assume tl: "node' \<in> set (rename_nodes prefix aio n (Suc i) rm1 rest)"
    from Cons.IH[OF tl Cons.prems(2)] obtain t where
      "inp = Some t" "t \<in> ran rm1 \<or> t \<in> name ` set (rename_nodes prefix aio n (Suc i) rm1 rest)" by blast
    then show ?thesis unfolding res using ran1 by auto
  qed
qed

lemma ran_sentinels: "ran [''input'' \<mapsto> ''input'', ''output'' \<mapsto> ''output''] = {''input'', ''output''}"
proof -
  have "ran [''input'' \<mapsto> ''input'', ''output'' \<mapsto> ''output'']
        = insert ''output'' (ran [''input'' \<mapsto> ''input''])"
    by (rule ran_map_upd) simp
  also have "ran [''input'' \<mapsto> ''input''] = insert ''input'' (ran (Map.empty :: string \<rightharpoonup> string))"
    by (rule ran_map_upd) simp
  finally show ?thesis by auto
qed

section \<open>Properties of the encoder\<close>

lemmas repr_defs = get_arch_repr_def node_features_def torch_cat_axis1_def edge_of_def onehot_def
  scale_levels_def float_of_bool_def enumerate_dict_def dict_get_def Let_def

text \<open>
  Claim C8. For the graph \<open>[input, layer_0(scale=1, op='conv'), output]\<close> in which \<open>layer_0\<close> reads
  \<open>input\<close> and \<open>output\<close> reads \<open>layer_0\<close>, feature groups \<open>scale\<close> and \<open>op\<close> and the operator set
  \<open>['conv', 'pool']\<close>, \<open>get_arch_repr\<close> returns a feature matrix of 3 rows of 7 columns each and
  the edge index whose first row holds the sources \<open>0, 1\<close> and whose second row holds the targets
  \<open>1, 2\<close>: exactly the edges \<open>0 \<rightarrow> 1\<close> and \<open>1 \<rightarrow> 2\<close>, from predecessor to successor.
\<close>

theorem get_arch_repr_three_nodes:
  "\<exists>d. get_arch_repr
         (self\<lparr>encoder_features := [''scale'', ''op''], operations := [''conv'', ''pool'']\<rparr>)
         (am\<lparr>arch := (arch am)\<lparr>graph :=
            [\<lparr>name = ''input'', op = op0, scale = scale0, inputs = []\<rparr>,
             \<lparr>name = ''layer_0'', op = Some ''conv'', scale = 1, inputs = [Some ''input'']\<rparr>,
             \<lparr>name = ''output'', op = op2, scale = scale2, inputs = [Some ''layer_0'']\<rparr>]\<rparr>\<rparr>) = Inr d
       \<and> length (data_x d) = 3 \<and> map length (data_x d) = [7, 7, 7]
       \<and> data_edge_index d = [[0, 1], [1, 2]]
       \<and> zip (data_edge_index d ! 0) (data_edge_index d ! 1) = [(0, 1), (1, 2)]"
  by (simp add: repr_defs upt_rec transpose.simps)

section \<open>Properties of random sampling\<close>

lemma random_sample_result:
  assumes "random_sample E self g = Some r"
  shows "sample_ok E self r"
proof (rule random_sample.raw_induct[where P = "\<lambda>E self g r. sample_ok E self r", OF _ assms], goal_cases)
  case (1 rs E self g r)
  show ?case
  proof (cases "randint (min_layers self) (max_layers self) g")
    case (Inl e)
    with 1(2) show ?thesis by (auto simp: sample_ok_def)
  next
    case (Inr p)
    obtain num_layers g1 where p: "p = (num_layers, g1)" by (cases p)
    show ?thesis
    proof (cases "sample_model E self num_layers g1")
      case (Inl e)
      with 1(2) Inr p show ?thesis by (auto simp: sample_ok_def)
    next
      case sm: (Inr q)
      obtain model g2 where q: "q = (model, g2)" by (cases q)
      show ?thesis
      proof (cases "min_mac self < MAdd E model \<and> MAdd E model < max_mac self")
        case True
        with 1(2) Inr p sm q show ?thesis by (auto simp: sample_ok_def Let_def)
      next
        case False
        with 1(2) Inr p sm q have "rs E self g2 = Some r" by (auto simp: Let_def)
        then show ?thesis by (rule 1(1))
      qed
    qed
  qed
qed

text \<open>
  Claim C3. Every architecture that \<open>random_sample\<close> returns has a measured MAC count strictly
  between \<open>min_mac\<close> and \<open>max_mac\<close>, recorded under \<open>macs\<close>, and its metadata has
  \<open>parent = None\<close>.
\<close>

theorem random_sample_within_budget:
  "random_sample E self g = Some (Inr (am, g')) \<Longrightarrow>
     min_mac self < MAdd E (arch am) \<and> MAdd E (arch am) < max_mac self
     \<and> macs (metadata am) = Some (MAdd E (arch am)) \<and> parent (metadata am) = None"
  using random_sample_result[of E self g "Inr (am, g')"] by (simp add: sample_ok_def)


theorem random_sample_within_budget_witness:
  "random_sample working_compiler example_space (sconst 0)
     = Some (Inr (\<lparr>arch = example_arch,
                    metadata = \<lparr>datasetname = ''cityscapes'', archid = to_hash working_compiler example_arch,
                                 parent = None, macs = Some 500, parents = None\<rparr>\<rparr>, sconst 0))
   \<and> min_mac example_space < MAdd working_compiler example_arch
   \<and> MAdd working_compiler example_arch < max_mac example_space"
proof -
  have r: "random_sample working_compiler example_space (sconst 0)
     = Some (Inr (\<lparr>arch = example_arch,
                    metadata = \<lparr>datasetname = ''cityscapes'', archid = to_hash working_compiler example_arch,
                                 parent = None, macs = Some 500, parents = None\<rparr>\<rparr>, sconst 0))"
    by (subst random_sample.simps)
       (simp add: randint_def example_space_def working_compiler_def compiled_def Let_def)
  from random_sample_within_budget [OF r] r show ?thesis by simp
qed

section \<open>Properties of neighbor generation\<close>

lemmas example_defs = example_graph_def example_arch_def example_base_def example_space_def
  compiled_def working_compiler_def failing_compiler_def unrealizable_compiler_def

lemmas mutate_defs = mutate_graph_def mutate_op_def mutate_inputs_def keep_unshared_def
  out_degree_def unpack2_def max_inputs_def sample_def choice_def

text \<open>
  Claim C1 is right and the code misses it. With a compiler whose constructor fails, the first
  attempt enters the handler while \<open>nbr_model\<close> is unbound, and \<open>get_neighbors\<close> raises
  \<open>UnboundLocalError\<close> to its caller instead of returning the empty list after five attempts.
\<close>

theorem get_neighbors_failing_constructor:
  "get_neighbors failing_compiler example_space example_base 5 (sconst 0) = Inl UnboundLocalError"
  by (simp add: get_neighbors_def get_neighbors_attempt_def example_defs random_neighbor_defs
        mutate_defs Let_def)

text \<open>
  When the constructor succeeds and only the forward validation fails, the handler finds
  \<open>nbr_model\<close> bound and the code behaves as C1 says: five attempts, then the empty list.
\<close>

lemma get_neighbors_failing_validation:
  "get_neighbors_loop unrealizable_compiler example_space example_base ''base'' 5 0 [] None (sconst 0)
     = Inr ([], 5, sconst 0)"
  by (simp add: get_neighbors_attempt_def example_defs random_neighbor_defs mutate_defs Let_def)

text \<open>
  Claim C10 does not hold for every call: the assertions sit inside the retry loop, so with
  \<open>patience = 0\<close> no attempt is made and a base graph without nodes yields the empty list.
\<close>

theorem get_neighbors_no_attempt_no_assertion:
  "get_neighbors working_compiler example_space
     (example_base\<lparr>arch := example_arch\<lparr>graph := []\<rparr>\<rparr>) 0 (sconst 0) = Inr ([], sconst 0)"
  by (simp add: get_neighbors_def)

text \<open>
  Claim C10, amended. For a base architecture whose graph violates one of the structural
  invariants (length greater than 1, first node named \<open>input\<close>, last node named \<open>output\<close>) and
  every \<open>patience\<close> of at least 1, \<open>get_neighbors\<close> raises \<open>AssertionError\<close> to its caller in the
  first attempt, whatever the compiler and the random draws; the assertions come before the
  \<open>try\<close> block, so it is neither a retry nor an empty list.
\<close>

theorem get_neighbors_sanity_assertion:
  "\<not> (1 < length (graph (arch base_model)) \<and> name (hd (graph (arch base_model))) = ''input''
      \<and> name (last (graph (arch base_model))) = ''output'') \<Longrightarrow>
   0 < patience \<Longrightarrow>
   get_neighbors E self base_model patience g = Inl AssertionError"
  by (auto simp add: get_neighbors_def get_neighbors_attempt_def Let_def)

theorem get_neighbors_sanity_assertion_witness:
  "\<not> (1 < length (graph (arch (example_base\<lparr>arch := example_arch\<lparr>graph := []\<rparr>\<rparr>)))
      \<and> name (hd (graph (arch (example_base\<lparr>arch := example_arch\<lparr>graph := []\<rparr>\<rparr>)))) = ''input''
      \<and> name (last (graph (arch (example_base\<lparr>arch := example_arch\<lparr>graph := []\<rparr>\<rparr>)))) = ''output'')
   \<and> (0::int) < 1
   \<and> get_neighbors working_compiler example_space
         (example_base\<lparr>arch := example_arch\<lparr>graph := []\<rparr>\<rparr>) 1 (sconst 0) = Inl AssertionError"
  using get_neighbors_sanity_assertion
          [of "example_base\<lparr>arch := example_arch\<lparr>graph := []\<rparr>\<rparr>" 1 working_compiler example_space "sconst 0"]
  by simp

text \<open>Without any attempt (\<open>patience\<close> at most 0) the result is the empty list, whatever the base.\<close>

lemma get_neighbors_no_patience:
  "patience \<le> 0 \<Longrightarrow> get_neighbors E self base_model patience g = Inr ([], g)"
  by (simp add: get_neighbors_def)

section \<open>Properties of crossover\<close>

lemmas rename_defs = rename_dag_node_list_def rename_node_def new_node_name_def rename_inputs_def
  digit_char_def Let_def

lemma length_rename_nodes [simp]: "length (rename_nodes pfx aio n i rm rest) = length rest"
  by (induction rest arbitrary: i rm) (auto split: prod.splits)

lemma length_rename_dag_node_list [simp]:
  "length (rename_dag_node_list node_list pfx rio aio) = length node_list"
  by (simp add: rename_dag_node_list_def Let_def)

lemma sample_draw_two:
  "sample_draw [a, b] (Suc (Suc 0)) g
     = (if shd g mod 2 = 0 then [a, b] else [b, a], stl (stl g))"
proof -
  have len: "length [a, b] = 2" by simp
  have one: "sample_draw [x] (Suc 0) h = ([x], stl h)" for x :: 'a and h
    by (simp add: Let_def)
  have "shd g mod 2 = 0 \<or> shd g mod 2 = 1" by linarith
  then show ?thesis
  proof
    assume z: "shd g mod 2 = 0"
    have "sample_draw [a, b] (Suc (Suc 0)) g
          = (let (rest, g') = sample_draw [b] (Suc 0) (stl g) in (a # rest, g'))"
      unfolding sample_draw.simps(2)[of "[a, b]" "Suc 0" g] len z Let_def by simp
    then show ?thesis unfolding one using z by simp
  next
    assume z: "shd g mod 2 = 1"
    have "sample_draw [a, b] (Suc (Suc 0)) g
          = (let (rest, g') = sample_draw [a] (Suc 0) (stl g) in (b # rest, g'))"
      unfolding sample_draw.simps(2)[of "[a, b]" "Suc 0" g] len z Let_def by simp
    then show ?thesis unfolding one using z by simp
  qed
qed

lemma sample_two:
  "sample [a, b] 2 g = Inr (if shd g mod 2 = 0 then [a, b] else [b, a], stl (stl g))"
proof -
  have two: "nat 2 = Suc (Suc 0)" by simp
  show ?thesis unfolding sample_def two sample_draw_two by simp
qed

lemma crossover_attempt_none:
  "lns = map name L \<Longrightarrow>
   (crossover_attempt L R lns rns g = Inr (None, g1)) \<longleftrightarrow> (no_right_pivot L R g \<and> g1 = stl g)"
  by (auto simp: crossover_attempt_def no_right_pivot_def Let_def
           split: sum.splits prod.splits if_splits dest: randint_range)

lemma splice_nonempty:
  "splice L R lns rns lp rp g = Inr (m, g') \<Longrightarrow> L \<noteq> [] \<Longrightarrow> m \<noteq> []"
proof -
  assume a: "splice L R lns rns lp rp g = Inr (m, g')" and b: "L \<noteq> []"
  from a obtain xs where "length m = length (take (lp + 1) L @ xs)"
    by (auto simp: splice_def Let_def split: sum.splits prod.splits)
  then show ?thesis using b by (cases L) auto
qed

lemma crossover_attempt_some:
  "crossover_attempt L R lns rns g = Inr (Some m, g1) \<Longrightarrow> L \<noteq> [] \<Longrightarrow> m \<noteq> []"
  by (auto simp: crossover_attempt_def Let_def split: sum.splits prod.splits if_splits
           dest: splice_nonempty)

declare crossover_loop.simps [simp del]

lemma crossover_loop_done [simp]:
  "crossover_loop L R lns rns patience (Some m) nb g = Inr (Some m, g)"
  by (subst crossover_loop.simps) simp

lemma crossover_loop_none:
  assumes "lns = map name L"
  shows "(crossover_loop L R lns rns patience None nb g = Inr (None, g')) \<longleftrightarrow>
         ((\<forall>k < nat (patience - nb). no_right_pivot L R (sdrop k g)) \<and> g' = sdrop (nat (patience - nb)) g)"
proof (induction "nat (patience - nb)" arbitrary: nb g)
  case 0
  then have "\<not> nb < patience" by simp
  then have "crossover_loop L R lns rns patience None nb g = Inr (None, g)"
    by (subst crossover_loop.simps) simp
  then show ?case using 0 by auto
next
  case (Suc n)
  then have lt: "nb < patience" and n: "n = nat (patience - (nb + 1))" by linarith+
  have unf: "crossover_loop L R lns rns patience None nb g =
        (case crossover_attempt L R lns rns g of
           Inl e \<Rightarrow> Inl e
         | Inr (r, g1) \<Rightarrow> crossover_loop L R lns rns patience r (nb + 1) g1)"
    using lt by (subst crossover_loop.simps) simp
  have all: "(\<forall>k < Suc n. no_right_pivot L R (sdrop k g)) \<longleftrightarrow>
             (no_right_pivot L R g \<and> (\<forall>k < n. no_right_pivot L R (sdrop k (stl g))))"
    by (auto simp: less_Suc_eq_0_disj)
  show ?case
  proof (cases "crossover_attempt L R lns rns g")
    case (Inl e)
    then have "\<not> no_right_pivot L R g"
      using crossover_attempt_none[OF assms, of R rns g "stl g"] by auto
    then show ?thesis using unf Inl Suc(2)[symmetric] all by auto
  next
    case (Inr p)
    obtain r g1 where p: "p = (r, g1)" by (cases p)
    show ?thesis
    proof (cases r)
      case None
      with Inr p have att: "crossover_attempt L R lns rns g = Inr (None, g1)" by simp
      then have np: "no_right_pivot L R g" and g1: "g1 = stl g"
        using crossover_attempt_none[OF assms, of R rns g g1] by auto
      have "crossover_loop L R lns rns patience None nb g = crossover_loop L R lns rns patience None (nb + 1) (stl g)"
        using unf att g1 by simp
      then show ?thesis
        using Suc(1)[OF n, of "stl g"] np all Suc(2)[symmetric] n by auto
    next
      case (Some m)
      with Inr p have att: "crossover_attempt L R lns rns g = Inr (Some m, g1)" by simp
      then have "\<not> no_right_pivot L R g"
        using crossover_attempt_none[OF assms, of R rns g "stl g"] by auto
      moreover have "crossover_loop L R lns rns patience None nb g = Inr (Some m, g1)"
        using unf att by simp
      ultimately show ?thesis using all Suc(2)[symmetric] by auto
    qed
  qed
qed

lemma crossover_loop_some:
  "crossover_loop L R lns rns patience None nb g = Inr (Some m, g') \<Longrightarrow> L \<noteq> [] \<Longrightarrow> m \<noteq> []"
proof (induction "nat (patience - nb)" arbitrary: nb g)
  case 0
  then have "\<not> nb < patience" by simp
  then have "crossover_loop L R lns rns patience None nb g = Inr (None, g)"
    by (subst crossover_loop.simps) simp
  with 0 show ?case by simp
next
  case (Suc n)
  then have lt: "nb < patience" and n: "n = nat (patience - (nb + 1))" by linarith+
  have unf: "crossover_loop L R lns rns patience None nb g =
        (case crossover_attempt L R lns rns g of
           Inl e \<Rightarrow> Inl e
         | Inr (r, g1) \<Rightarrow> crossover_loop L R lns rns patience r (nb + 1) g1)"
    using lt by (subst crossover_loop.simps) simp
  show ?case
  proof (cases "crossover_attempt L R lns rns g")
    case (Inl e)
    with unf Suc(3) show ?thesis by simp
  next
    case (Inr p)
    obtain r g1 where p: "p = (r, g1)" by (cases p)
    show ?thesis
    proof (cases r)
      case None
      with Inr p unf Suc(3) have "crossover_loop L R lns rns patience None (nb + 1) g1 = Inr (Some m, g')"
        by simp
      from Suc(1)[OF n this Suc(4)] show ?thesis .
    next
      case (Some m')
      with Inr p unf Suc(3) have "m' = m" by simp
      with Inr p Some crossover_attempt_some[of L R lns rns g m g1] Suc(4) show ?thesis by simp
    qed
  qed
qed

text \<open>
  \<open>no_right_pivot\<close> in the words of the contract: the candidate list is empty exactly when no
  interior node of the right graph has the scale of the left pivot.
\<close>

lemma right_candidates_mem:
  "i \<in> set (right_candidates left_g right_g p) \<longleftrightarrow>
     0 < i \<and> Suc i < length right_g \<and> scale (right_g ! i) = scale (left_g ! p)"
proof
  assume "i \<in> set (right_candidates left_g right_g p)"
  then show "0 < i \<and> Suc i < length right_g \<and> scale (right_g ! i) = scale (left_g ! p)"
    by (auto simp: right_candidates_def in_set_enumerate_eq split: if_splits)
next
  assume a: "0 < i \<and> Suc i < length right_g \<and> scale (right_g ! i) = scale (left_g ! p)"
  then have "(i, right_g ! i) \<in> set (enumerate 0 right_g)"
    by (simp add: in_set_enumerate_eq)
  with a show "i \<in> set (right_candidates left_g right_g p)"
    unfolding right_candidates_def by force
qed

lemma right_candidates_none_iff:
  "right_candidates left_g right_g p = [] \<longleftrightarrow>
     \<not> (\<exists>i. 0 < i \<and> Suc i < length right_g \<and> scale (right_g ! i) = scale (left_g ! p))"
proof -
  have "right_candidates left_g right_g p = [] \<longleftrightarrow> set (right_candidates left_g right_g p) = {}"
    by simp
  also have "\<dots> \<longleftrightarrow> \<not> (\<exists>i. i \<in> set (right_candidates left_g right_g p))" by auto
  finally show ?thesis unfolding right_candidates_mem .
qed

text \<open>
  Claim C5. \<open>crossover\<close> returns no result, without raising, in exactly two situations: at once
  when one of the parent graphs has at most 2 nodes, or after \<open>patience\<close> attempts (the attempt
  numbered \<open>k\<close> reading the tape from position \<open>k\<close> after the draws that order the parents) none of
  which found a right pivot with the scale of its left pivot. In every other case it raises or
  returns an architecture.
\<close>

theorem crossover_none_iff:
  assumes "sample [model_1, model_2] 2 g = Inr ([left_m, right_m], g1)"
    and "left_g = rename_dag_node_list (graph (arch left_m)) ''left'' True False"
    and "right_g = rename_dag_node_list (graph (arch right_m)) ''right'' True False"
  shows "(\<exists>g'. crossover E self model_1 model_2 patience g = Inr (None, g')) \<longleftrightarrow>
         (length (graph (arch model_1)) \<le> 2 \<or> length (graph (arch model_2)) \<le> 2
          \<or> (\<forall>k < nat patience. no_right_pivot left_g right_g (sdrop k g1)))"
proof -
  have order: "([left_m, right_m] = [model_1, model_2] \<or> [left_m, right_m] = [model_2, model_1])"
    using assms(1) unfolding sample_two by (auto split: if_splits)
  then have short: "(length (graph (arch model_1)) \<le> 2 \<or> length (graph (arch model_2)) \<le> 2)
      \<longleftrightarrow> (length left_g \<le> 2 \<or> length right_g \<le> 2)"
    using assms(2,3) by auto
  show ?thesis
  proof (cases "length left_g \<le> 2 \<or> length right_g \<le> 2")
    case True
    then have "crossover_merge model_1 model_2 patience g = Inr ((left_m, right_m), None, g1)"
      using assms by (simp add: crossover_merge_def Let_def)
    then have "crossover E self model_1 model_2 patience g = Inr (None, g1)"
      by (simp add: crossover_def)
    then show ?thesis using True short by auto
  next
    case False
    then have ne: "left_g \<noteq> []" by auto
    have merge: "crossover_merge model_1 model_2 patience g =
        (case crossover_loop left_g right_g (map name left_g) (map name right_g) patience None 0 g1 of
           Inl e \<Rightarrow> Inl e
         | Inr (result_g, g2) \<Rightarrow> Inr ((left_m, right_m), result_g, g2))"
      using assms False by (auto simp add: crossover_merge_def Let_def split: sum.splits)
    note loop = crossover_loop_none[of "map name left_g" left_g right_g "map name right_g" patience 0 g1]
    show ?thesis
    proof (cases "crossover_loop left_g right_g (map name left_g) (map name right_g) patience None 0 g1")
      case (Inl e)
      then have "crossover E self model_1 model_2 patience g = Inl e"
        using merge by (simp add: crossover_def)
      moreover have "\<not> (\<forall>k < nat patience. no_right_pivot left_g right_g (sdrop k g1))"
        using loop Inl by auto
      ultimately show ?thesis using False short by auto
    next
      case (Inr p)
      obtain r g2 where p: "p = (r, g2)" by (cases p)
      show ?thesis
      proof (cases r)
        case None
        then have "crossover E self model_1 model_2 patience g = Inr (None, g2)"
          using merge Inr p by (simp add: crossover_def)
        moreover have "\<forall>k < nat patience. no_right_pivot left_g right_g (sdrop k g1)"
          using loop Inr p None by auto
        ultimately show ?thesis by auto
      next
        case (Some m)
        then have lp: "crossover_loop left_g right_g (map name left_g) (map name right_g) patience None 0 g1
                   = Inr (Some m, g2)" using Inr p by simp
        from crossover_loop_some[OF lp ne] have "m \<noteq> []" .
        then have "\<forall>g'. crossover E self model_1 model_2 patience g \<noteq> Inr (None, g')"
          using merge lp
          by (auto simp: crossover_def choice_def load_from_graph_def split: sum.splits prod.splits)
        moreover have "\<not> (\<forall>k < nat patience. no_right_pivot left_g right_g (sdrop k g1))"
          using loop lp by auto
        ultimately show ?thesis using False short by auto
      qed
    qed
  qed
qed

lemma small_left: "rename_dag_node_list (graph (arch (small_model 2))) ''left'' True False =
   [\<lparr>name = ''left_layer_0'', op = None, scale = 1, inputs = []\<rparr>,
    \<lparr>name = ''left_layer_1'', op = Some ''conv3x3'', scale = 2, inputs = [Some ''left_layer_0'']\<rparr>,
    \<lparr>name = ''left_layer_2'', op = Some ''conv3x3'', scale = 1, inputs = [Some ''left_layer_1'']\<rparr>]"
  by (simp add: small_model_def small_arch_def rename_defs)

lemma small_right: "rename_dag_node_list (graph (arch (small_model 4))) ''right'' True False =
   [\<lparr>name = ''right_layer_0'', op = None, scale = 1, inputs = []\<rparr>,
    \<lparr>name = ''right_layer_1'', op = Some ''conv3x3'', scale = 4, inputs = [Some ''right_layer_0'']\<rparr>,
    \<lparr>name = ''right_layer_2'', op = Some ''conv3x3'', scale = 1, inputs = [Some ''right_layer_1'']\<rparr>]"
  by (simp add: small_model_def small_arch_def rename_defs)

theorem crossover_none_iff_witness:
  "sample [small_model 2, small_model 4] 2 (sconst 0) = Inr ([small_model 2, small_model 4], sconst 0)
   \<and> crossover working_compiler example_space (small_model 2) (small_model 4) 3 (sconst 0) = Inr (None, sconst 0)
   \<and> no_right_pivot
          (rename_dag_node_list (graph (arch (small_model 2))) ''left'' True False)
          (rename_dag_node_list (graph (arch (small_model 4))) ''right'' True False)
          (sdrop 0 (sconst 0))
   \<and> no_right_pivot
          (rename_dag_node_list (graph (arch (small_model 2))) ''left'' True False)
          (rename_dag_node_list (graph (arch (small_model 4))) ''right'' True False)
          (sdrop 1 (sconst 0))
   \<and> no_right_pivot
          (rename_dag_node_list (graph (arch (small_model 2))) ''left'' True False)
          (rename_dag_node_list (graph (arch (small_model 4))) ''right'' True False)
          (sdrop 2 (sconst 0))"
proof -
  have s: "sample [small_model 2, small_model 4] 2 (sconst 0) = Inr ([small_model 2, small_model 4], sconst 0)"
    by (simp add: sample_two)
  have c: "crossover working_compiler example_space (small_model 2) (small_model 4) 3 (sconst 0) = Inr (None, sconst 0)"
    unfolding crossover_def crossover_merge_def s
    by (simp add: small_left small_right crossover_loop.simps crossover_attempt_def randint_def right_candidates_def Let_def)
  have three: "(0::nat) < nat 3" "(1::nat) < nat 3" "(2::nat) < nat 3" by simp_all
  have "length (graph (arch (small_model 2))) \<le> 2 \<or> length (graph (arch (small_model 4))) \<le> 2
        \<or> (\<forall>k < nat 3. no_right_pivot
              (rename_dag_node_list (graph (arch (small_model 2))) ''left'' True False)
              (rename_dag_node_list (graph (arch (small_model 4))) ''right'' True False)
              (sdrop k (sconst 0)))"
    using crossover_none_iff [OF s refl refl, of working_compiler example_space 3] c by blast
  then have "\<forall>k < nat 3. no_right_pivot
              (rename_dag_node_list (graph (arch (small_model 2))) ''left'' True False)
              (rename_dag_node_list (graph (arch (small_model 4))) ''right'' True False)
              (sdrop k (sconst 0))"
    by (simp add: small_model_def small_arch_def)
  with three s c show ?thesis by blast
qed

section \<open>The merged graph of a crossover\<close>

lemma digit_val_digit_char: "d < 10 \<Longrightarrow> digit_val (digit_char d) = d"
proof -
  assume d: "d < 10"
  have all: "\<forall>k \<in> set [0..<10]. digit_val (digit_char k) = k"
    by (simp add: upt_rec digit_val_def digit_char_def)
  from d have "d \<in> set [0..<10]" by simp
  with all show ?thesis by blast
qed

lemma nat_of_str_snoc: "nat_of_str (s @ [c]) = 10 * nat_of_str s + digit_val c"
  by (simp add: nat_of_str_def)

lemma nat_of_str_str_nat: "nat_of_str (str_nat n) = n"
proof (induction n rule: str_nat.induct)
  case (1 n)
  show ?case
  proof (cases "n < 10")
    case True
    then have "str_nat n = [digit_char n]" by simp
    then show ?thesis using True by (simp add: nat_of_str_def digit_val_digit_char)
  next
    case False
    then have s: "str_nat n = str_nat (n div 10) @ [digit_char (n mod 10)]" by simp
    have "nat_of_str (str_nat n) = 10 * nat_of_str (str_nat (n div 10)) + digit_val (digit_char (n mod 10))"
      unfolding s nat_of_str_snoc ..
    also have "\<dots> = 10 * (n div 10) + n mod 10"
      using 1[OF False] by (simp add: digit_val_digit_char)
    finally show ?thesis by simp
  qed
qed

lemma str_nat_inj: "str_nat m = str_nat n \<Longrightarrow> m = n"
  using nat_of_str_str_nat[of m] nat_of_str_str_nat[of n] by simp

lemma rename_inputs_entry:
  "inp \<in> set (rename_inputs rm inps) \<Longrightarrow> \<exists>s t. Some s \<in> set inps \<and> rm s = Some t \<and> inp = Some t"
  by (auto simp: rename_inputs_def split: option.splits if_splits)

lemma rename_nodes_Cons:
  "rename_nodes pfx aio n i rm (node # rest) =
     snd (rename_node pfx aio n i rm node) #
     rename_nodes pfx aio n (Suc i) (fst (rename_node pfx aio n i rm node)) rest"
  by (simp split: prod.splits)

lemma rename_node_name:
  "name (snd (rename_node pfx aio n i rm node)) =
     (if rm (name node) = None then new_node_name pfx aio n i else name node)"
  by (simp add: rename_node_eq)

lemma rename_node_inputs:
  "inputs (snd (rename_node pfx aio n i rm node)) =
     rename_inputs (fst (rename_node pfx aio n i rm node)) (inputs node)"
  by (simp add: rename_node_eq)

lemma rename_node_map:
  "fst (rename_node pfx aio n i rm node) =
     (if rm (name node) = None then rm(name node \<mapsto> new_node_name pfx aio n i) else rm)"
  by (simp add: rename_node_eq)

lemma rename_node_scale: "scale (snd (rename_node pfx aio n i rm node)) = scale node"
  by (simp add: rename_node_eq)

lemma rename_nodes_names:
  "distinct (map name rest) \<Longrightarrow> \<forall>nd \<in> set rest. rm (name nd) = None \<Longrightarrow>
   map name (rename_nodes pfx aio n i rm rest) = map (new_node_name pfx aio n) [i..<i + length rest]"
proof (induction rest arbitrary: i rm)
  case Nil then show ?case by simp
next
  case (Cons node rest)
  let ?rm1 = "fst (rename_node pfx aio n i rm node)"
  have fresh: "rm (name node) = None" using Cons.prems(2) by simp
  have rm1: "?rm1 = rm(name node \<mapsto> new_node_name pfx aio n i)"
    using fresh by (simp add: rename_node_map)
  have "\<forall>nd \<in> set rest. ?rm1 (name nd) = None"
  proof
    fix nd assume nd: "nd \<in> set rest"
    then have "name nd \<in> name ` set rest" by (rule imageI)
    moreover have "name node \<notin> name ` set rest" using Cons.prems(1) by simp
    ultimately have "name nd \<noteq> name node" by auto
    then show "?rm1 (name nd) = None" unfolding rm1 using Cons.prems(2) nd by simp
  qed
  moreover have "distinct (map name rest)" using Cons.prems(1) by simp
  ultimately have IH: "map name (rename_nodes pfx aio n (Suc i) ?rm1 rest)
      = map (new_node_name pfx aio n) [Suc i..<Suc i + length rest]"
    by (rule Cons.IH[rotated])
  have "i < i + length (node # rest)" by simp
  from upt_conv_Cons[OF this]
  have "[i..<i + length (node # rest)] = i # [Suc i..<Suc i + length rest]"
    by simp
  then show ?case
    unfolding rename_nodes_Cons using IH fresh by (simp add: rename_node_name)
qed

lemma rename_nodes_scales:
  "map scale (rename_nodes pfx aio n i rm rest) = map scale rest"
  by (induction rest arbitrary: i rm) (simp_all add: rename_nodes_Cons rename_node_scale del: rename_nodes.simps(2))

lemma rename_nodes_earlier:
  "k < length rest \<Longrightarrow> inp \<in> set (inputs (rename_nodes pfx aio n i rm rest ! k)) \<Longrightarrow>
   \<exists>t. inp = Some t \<and>
     (t \<in> ran rm
      \<or> (\<exists>j<k. t = name (rename_nodes pfx aio n i rm rest ! j))
      \<or> Some (name (rest ! k)) \<in> set (inputs (rest ! k)))"
proof (induction rest arbitrary: i rm k)
  case Nil then show ?case by simp
next
  case (Cons node rest)
  let ?rm1 = "fst (rename_node pfx aio n i rm node)"
  let ?node1 = "snd (rename_node pfx aio n i rm node)"
  let ?rec = "rename_nodes pfx aio n (Suc i) ?rm1 rest"
  have res: "rename_nodes pfx aio n i rm (node # rest) = ?node1 # ?rec"
    by (rule rename_nodes_Cons)
  have ran1: "ran ?rm1 \<subseteq> insert (name ?node1) (ran rm)"
  proof (cases "rm (name node) = None")
    case True
    then show ?thesis
      using ran_map_upd[of rm "name node" "new_node_name pfx aio n i"]
      by (simp add: rename_node_map rename_node_name)
  next
    case False
    then show ?thesis by (auto simp add: rename_node_map)
  qed
  show ?case
  proof (cases k)
    case 0
    with Cons.prems(2) have "inp \<in> set (rename_inputs ?rm1 (inputs node))"
      unfolding res by (simp add: rename_node_inputs)
    from rename_inputs_entry[OF this] obtain s t where
      st: "Some s \<in> set (inputs node)" "?rm1 s = Some t" "inp = Some t" by blast
    show ?thesis
    proof (cases "s = name node")
      case True
      with st(1) 0 show ?thesis using st(3) by simp
    next
      case False
      with st(2) have "rm s = Some t" by (auto simp: rename_node_map split: if_splits)
      then have "t \<in> ran rm" by (auto simp: ran_def)
      with st(3) show ?thesis by simp
    qed
  next
    case (Suc k')
    with Cons.prems have k': "k' < length rest" and mem: "inp \<in> set (inputs (?rec ! k'))"
      unfolding res by simp_all
    from Cons.IH[OF k' mem] obtain t where t: "inp = Some t"
      "t \<in> ran ?rm1 \<or> (\<exists>j<k'. t = name (?rec ! j)) \<or> Some (name (rest ! k')) \<in> set (inputs (rest ! k'))"
      by blast
    from t(2) show ?thesis
    proof (elim disjE)
      assume "t \<in> ran ?rm1"
      with ran1 have "t = name ?node1 \<or> t \<in> ran rm" by auto
      then show ?thesis
      proof
        assume "t = name ?node1"
        then have "\<exists>j<k. t = name ((?node1 # ?rec) ! j)" using Suc by (intro exI[of _ 0]) simp
        then show ?thesis unfolding res using t(1) by blast
      next
        assume "t \<in> ran rm" then show ?thesis using t(1) by blast
      qed
    next
      assume "\<exists>j<k'. t = name (?rec ! j)"
      then obtain j where "j < k'" "t = name (?rec ! j)" by blast
      then have "Suc j < k \<and> t = name ((?node1 # ?rec) ! Suc j)" using Suc by simp
      then show ?thesis unfolding res using t(1) by blast
    next
      assume "Some (name (rest ! k')) \<in> set (inputs (rest ! k'))"
      then show ?thesis using t(1) Suc by simp
    qed
  qed
qed

lemma rename_nodes_last_name:
  "rest \<noteq> [] \<Longrightarrow>
   name (last (rename_nodes pfx aio n i rm rest)) = new_node_name pfx aio n (i + length rest - 1)
   \<or> name (last (rename_nodes pfx aio n i rm rest)) = name (last rest)"
proof (induction rest arbitrary: i rm)
  case Nil then show ?case by simp
next
  case (Cons node rest)
  show ?case
  proof (cases "rest = []")
    case True
    then show ?thesis unfolding rename_nodes_Cons by (simp add: rename_node_name)
  next
    case False
    then have "rename_nodes pfx aio n (Suc i) (fst (rename_node pfx aio n i rm node)) rest \<noteq> []"
      by (metis length_rename_nodes length_0_conv)
    with Cons.IH[OF False, of "Suc i" "fst (rename_node pfx aio n i rm node)"] False
    show ?thesis unfolding rename_nodes_Cons by simp
  qed
qed

lemma rename_nodes_hd_name:
  "rest \<noteq> [] \<Longrightarrow> rm (name (hd rest)) = None \<Longrightarrow>
   name (hd (rename_nodes pfx aio n i rm rest)) = new_node_name pfx aio n i"
  by (cases rest) (simp_all add: rename_nodes_Cons rename_node_name del: rename_nodes.simps(2))

lemma no_self_input_iff:
  "no_self_input g = (\<forall>nd \<in> set g. Some (name nd) \<notin> set (inputs nd))"
  by (simp add: no_self_input_def list_all_iff)

lemma inputs_earlier_iff:
  "inputs_earlier g =
     (\<forall>k \<in> set [0..<length g]. \<forall>inp \<in> set (inputs (g ! k)). inp \<in> set (map (Some \<circ> name) (take k g)))"
  by (simp add: inputs_earlier_def list_all_iff)

declare str_nat.simps [simp del]

lemma in_take_names:
  "j < k \<Longrightarrow> k \<le> length g \<Longrightarrow> Some (name (g ! j)) \<in> set (map (Some \<circ> name) (take k g))"
proof -
  assume a: "j < k" "k \<le> length g"
  then have "take k g ! j = g ! j" "j < length (take k g)" by simp_all
  then have "g ! j \<in> set (take k g)" by (metis nth_mem)
  then show ?thesis by auto
qed

lemma new_node_name_cases:
  "new_node_name [] True n k =
     (if k = 0 then ''input'' else if Suc k = n then ''output'' else ''layer_'' @ str_nat k)"
  by (simp add: new_node_name_def del: str_nat.simps)

lemma new_node_name_inj:
  assumes "k < n" "j < n" "new_node_name [] True n k = new_node_name [] True n j"
  shows "k = j"
proof -
  consider (a) "k = 0" | (b) "k \<noteq> 0" "Suc k = n" | (c) "k \<noteq> 0" "Suc k \<noteq> n" by blast
  then show ?thesis
  proof cases
    case a
    then have "new_node_name [] True n j = ''input''" using assms(3) by (simp add: new_node_name_cases)
    then show ?thesis using a
      by (cases "j = 0"; cases "Suc j = n") (simp_all add: new_node_name_cases del: str_nat.simps)
  next
    case b
    then have "new_node_name [] True n j = ''output''" using assms(3) by (simp add: new_node_name_cases)
    then show ?thesis using b
      by (cases "j = 0"; cases "Suc j = n") (simp_all add: new_node_name_cases del: str_nat.simps)
  next
    case c
    then have e: "new_node_name [] True n j = ''layer_'' @ str_nat k"
      using assms(3) by (simp add: new_node_name_cases del: str_nat.simps)
    show ?thesis
    proof (cases "j = 0 \<or> Suc j = n")
      case True
      then show ?thesis using e
        by (cases "j = 0") (simp_all add: new_node_name_cases del: str_nat.simps)
    next
      case False
      then have "str_nat j = str_nat k" using e by (simp add: new_node_name_cases del: str_nat.simps)
      then show ?thesis using str_nat_inj by blast
    qed
  qed
qed

lemma rename_final_invariant:
  assumes ns: "no_self_input M" and len: "2 \<le> length M" and out: "name (last M) = ''output''"
    and dist: "distinct (map name M)"
  shows "graph_invariant (rename_dag_node_list M [] True True)"
proof -
  let ?n = "length M"
  let ?res = "rename_nodes [] True ?n 0 Map.empty M"
  have r: "rename_dag_node_list M [] True True = ?res"
    by (simp add: rename_dag_node_list_def)
  have ne: "M \<noteq> []" using len by auto
  have lres: "length ?res = ?n" by simp
  have ne': "?res \<noteq> []" using ne lres by (metis length_0_conv)
  have first: "name (hd ?res) = ''input''"
    using rename_nodes_hd_name[OF ne, of Map.empty "[]" True ?n 0]
    by (simp add: new_node_name_def)
  have "new_node_name [] True ?n (0 + ?n - 1) = ''output''"
    using len by (auto simp: new_node_name_def)
  with rename_nodes_last_name[OF ne, of "[]" True ?n 0 Map.empty] out
  have lastn: "name (last ?res) = ''output''" by auto
  have earlier: "inputs_earlier ?res"
    unfolding inputs_earlier_iff
  proof (intro ballI)
    fix k inp
    assume k: "k \<in> set [0..<length ?res]" and inp: "inp \<in> set (inputs (?res ! k))"
    from k have kl: "k < length M" by simp
    from ns kl have "Some (name (M ! k)) \<notin> set (inputs (M ! k))"
      by (simp add: no_self_input_iff)
    with rename_nodes_earlier[OF kl inp] obtain j where "j < k" "inp = Some (name (?res ! j))"
      by auto
    then show "inp \<in> set (map (Some \<circ> name) (take k ?res))"
      using in_take_names[of j k ?res] kl by simp
  qed
  have "map name ?res = map (new_node_name [] True ?n) [0..<0 + ?n]"
    by (rule rename_nodes_names) (use dist in simp_all)
  moreover have "distinct (map (new_node_name [] True ?n) [0..<?n])"
  proof -
    have "inj_on (new_node_name [] True ?n) (set [0..<?n])"
      by (rule inj_onI) (use new_node_name_inj in simp)
    then show ?thesis by (simp add: distinct_map)
  qed
  ultimately have "distinct (map name ?res)" by simp
  then show ?thesis unfolding r graph_invariant_def using ne' first lastn earlier by simp
qed

lemma first_rename_names:
  assumes "p \<noteq> []" "distinct (map name g)"
  shows "map name (rename_dag_node_list g p True False)
         = map (\<lambda>k. p @ ''_layer_'' @ str_nat k) [0..<length g]"
proof -
  have "map name (rename_nodes (p @ ''_'') False (length g) 0 Map.empty g)
        = map (new_node_name (p @ ''_'') False (length g)) [0..<0 + length g]"
    by (rule rename_nodes_names) (use assms in simp_all)
  then show ?thesis using assms(1) by (simp add: rename_dag_node_list_def new_node_name_def)
qed

lemma first_rename_nth_name:
  assumes "p \<noteq> []" "distinct (map name g)" "k < length g"
  shows "name (rename_dag_node_list g p True False ! k) = p @ ''_layer_'' @ str_nat k"
proof -
  have "name (rename_dag_node_list g p True False ! k) = map name (rename_dag_node_list g p True False) ! k"
    using assms(3) by simp
  also have "\<dots> = p @ ''_layer_'' @ str_nat k"
    unfolding first_rename_names[OF assms(1,2)] using assms(3) by simp
  finally show ?thesis .
qed

lemma first_rename_distinct:
  assumes "p \<noteq> []" "distinct (map name g)"
  shows "distinct (map name (rename_dag_node_list g p True False))"
  unfolding first_rename_names[OF assms]
  by (simp add: distinct_map inj_on_def str_nat_inj)

lemma first_rename_inputs:
  assumes "p \<noteq> []" "valid_parent g" "k < length g"
    and "inp \<in> set (inputs (rename_dag_node_list g p True False ! k))"
  shows "\<exists>j<k. inp = Some (name (rename_dag_node_list g p True False ! j))"
proof -
  let ?res = "rename_nodes (p @ ''_'') False (length g) 0 Map.empty g"
  have r: "rename_dag_node_list g p True False = ?res"
    using assms(1) by (simp add: rename_dag_node_list_def)
  have "Some (name (g ! k)) \<notin> set (inputs (g ! k))"
    using assms(2,3) by (simp add: valid_parent_def no_self_input_iff)
  with rename_nodes_earlier[OF assms(3), of inp "p @ ''_''" False "length g" 0 Map.empty] assms(4)
  show ?thesis unfolding r by auto
qed

lemma first_rename_no_self:
  assumes "p \<noteq> []" "valid_parent g"
  shows "no_self_input (rename_dag_node_list g p True False)"
  unfolding no_self_input_iff
proof
  fix nd
  let ?L = "rename_dag_node_list g p True False"
  assume "nd \<in> set ?L"
  then obtain k where k: "k < length g" "nd = ?L ! k" by (auto simp: in_set_conv_nth)
  have d: "distinct (map name g)" using assms(2) by (simp add: valid_parent_def)
  show "Some (name nd) \<notin> set (inputs nd)"
  proof
    assume "Some (name nd) \<in> set (inputs nd)"
    with first_rename_inputs[OF assms k(1), of "Some (name nd)"] k(2)
    obtain j where j: "j < k" "name (?L ! k) = name (?L ! j)" by auto
    then have "str_nat k = str_nat j"
      using first_rename_nth_name[OF assms(1) d] k(1) by simp
    then show False using j(1) str_nat_inj by blast
  qed
qed

lemma first_rename_inputs_named:
  assumes "p \<noteq> []" "valid_parent g" "nd \<in> set (rename_dag_node_list g p True False)"
    and "inp \<in> set (inputs nd)"
  shows "inp \<in> Some ` name ` set (rename_dag_node_list g p True False)"
proof -
  let ?L = "rename_dag_node_list g p True False"
  from assms(3) obtain k where k: "k < length g" "nd = ?L ! k" by (auto simp: in_set_conv_nth)
  from first_rename_inputs[OF assms(1,2) k(1)] assms(4) k(2)
  obtain j where "j < k" "inp = Some (name (?L ! j))" by auto
  moreover then have "?L ! j \<in> set ?L" using k(1) by simp
  ultimately show ?thesis by blast
qed

lemma choice_in: "choice xs g = Inr (v, g') \<Longrightarrow> v \<in> set xs"
  by (auto simp: choice_def split: if_splits)

lemma repair_input_result:
  assumes "repair_input lh R rns rp inp g = Inr (inp', g')"
  shows "inp' = None \<or> inp' \<in> Some ` name ` set lh \<or> inp' = inp"
proof (cases "inp \<notin> set (map Some (drop rp rns))")
  case False
  with assms show ?thesis by (simp add: repair_input_def)
next
  case True
  show ?thesis
  proof (cases inp)
    case None
    with assms True show ?thesis by (simp add: repair_input_def)
  next
    case (Some s)
    show ?thesis
    proof (cases "dict_get (enumerate_dict rns) s")
      case (Inl e)
      with assms True Some show ?thesis by (simp add: repair_input_def)
    next
      case (Inr j)
      let ?c = "[name n. n \<leftarrow> lh, scale n = scale (R ! j)]"
      show ?thesis
      proof (cases "0 < length ?c")
        case False
        with assms True Some Inr show ?thesis by (simp add: repair_input_def Let_def)
      next
        case nonempty: True
        show ?thesis
        proof (cases "choice ?c g")
          case (Inl e)
          with assms True Some Inr nonempty show ?thesis by (simp add: repair_input_def Let_def)
        next
          case chosen: (Inr q)
          obtain c gc where q: "q = (c, gc)" by (cases q)
          have "c \<in> set ?c" using choice_in[of ?c g c gc] chosen q by simp
          then have "c \<in> name ` set lh" by auto
          moreover have "inp' = Some c"
            using assms True Some Inr nonempty chosen q by (simp add: repair_input_def Let_def)
          ultimately show ?thesis by blast
        qed
      qed
    qed
  qed
qed

lemma repair_inputs_result:
  "repair_inputs lh R rns rp inps g = Inr (inps', g') \<Longrightarrow>
   \<forall>v \<in> set inps'. v = None \<or> v \<in> Some ` name ` set lh \<or> v \<in> set inps"
proof (induction inps arbitrary: g inps' g')
  case Nil then show ?case by simp
next
  case (Cons inp rest)
  from Cons.prems obtain a g1 where a: "repair_input lh R rns rp inp g = Inr (a, g1)"
    by (auto split: sum.splits)
  with Cons.prems obtain rest' g2 where r: "repair_inputs lh R rns rp rest g1 = Inr (rest', g2)"
    and res: "inps' = a # rest'"
    by (auto split: sum.splits)
  from repair_input_result[OF a] Cons.IH[OF r] show ?case unfolding res by auto
qed

lemma repair_nodes_result:
  "repair_nodes lh R rns rp nodes g = Inr (nodes', g') \<Longrightarrow>
   list_all2 (\<lambda>nd nd'. name nd' = name nd \<and>
      (\<forall>v \<in> set (inputs nd'). v = None \<or> v \<in> Some ` name ` set lh \<or> v \<in> set (inputs nd)))
     nodes nodes'"
proof (induction nodes arbitrary: g nodes' g')
  case Nil then show ?case by simp
next
  case (Cons nd rest)
  from Cons.prems obtain inps g1 where a: "repair_inputs lh R rns rp (inputs nd) g = Inr (inps, g1)"
    by (auto split: sum.splits)
  with Cons.prems obtain rest' g2 where r: "repair_nodes lh R rns rp rest g1 = Inr (rest', g2)"
    and res: "nodes' = nd\<lparr>inputs := inps\<rparr> # rest'"
    by (auto split: sum.splits)
  from repair_inputs_result[OF a] Cons.IH[OF r] show ?case unfolding res by simp
qed

lemma rename_end_node_names:
  "map name (rename_end_node xs) = (map name xs)[length xs - 1 := ''output'']"
  by (simp add: rename_end_node_def map_update)

lemma rename_end_node_inputs:
  "map inputs (rename_end_node xs) = map inputs xs"
proof (cases "xs = []")
  case True then show ?thesis by (simp add: rename_end_node_def)
next
  case False
  then have "inputs (last xs) = map inputs xs ! (length xs - 1)"
    by (simp add: last_conv_nth)
  then show ?thesis by (simp add: rename_end_node_def map_update)
qed

lemma connect_halves_names: "map name (connect_halves p xs) = map name xs"
proof (cases xs)
  case Nil then show ?thesis by (simp add: connect_halves_def)
next
  case (Cons a as) then show ?thesis by (simp add: connect_halves_def)
qed

lemma connect_halves_length [simp]: "length (connect_halves p xs) = length xs"
  by (simp add: connect_halves_def)

lemma rename_end_node_length [simp]: "length (rename_end_node xs) = length xs"
  by (simp add: rename_end_node_def)

lemma connect_halves_inputs:
  "i < length xs \<Longrightarrow> set (inputs (connect_halves p xs ! i)) \<subseteq> insert (Some p) (set (inputs (xs ! i)))"
proof (cases xs)
  case Nil then show "i < length xs \<Longrightarrow> ?thesis" by simp
next
  case (Cons a as)
  then show "i < length xs \<Longrightarrow> ?thesis"
    by (cases i) (auto simp: connect_halves_def)
qed

lemma first_rename_name_form:
  assumes "p \<noteq> []" "distinct (map name g)" "v \<in> set (map name (rename_dag_node_list g p True False))"
  shows "\<exists>k. v = p @ ''_layer_'' @ str_nat k"
  using assms(3) unfolding first_rename_names[OF assms(1,2)] by auto

lemma left_right_names: "''left'' @ ''_layer_'' @ a \<noteq> ''right'' @ ''_layer_'' @ b"
  by simp

lemma left_not_output: "''left'' @ ''_layer_'' @ a \<noteq> ''output''"
  by simp

lemma right_not_output: "''right'' @ ''_layer_'' @ a \<noteq> ''output''"
  by simp

lemma list_all2_names:
  "list_all2 (\<lambda>nd nd'. name nd' = name nd \<and> Q nd nd') xs ys \<Longrightarrow> map name ys = map name xs"
  by (induction xs ys rule: list_all2_induct) simp_all

lemma splice_invariant:
  assumes vl: "valid_parent gl" and vr: "valid_parent gr"
    and L: "L = rename_dag_node_list gl ''left'' True False"
    and R: "R = rename_dag_node_list gr ''right'' True False"
    and lp: "lp < length L" and rp: "0 < rp" "Suc rp < length R"
    and sp: "splice L R (map name L) (map name R) lp rp g = Inr (m, g')"
  shows "graph_invariant m"
proof -
  let ?lh = "take (lp + 1) L"
  let ?rh = "drop rp R"
  let ?pivot = "map name L ! lp"
  from sp obtain rep where rep: "repair_nodes ?lh R (map name R) rp (rev ?rh) g = Inr (rep, g')"
     and m: "m = rename_dag_node_list (?lh @ connect_halves ?pivot (rename_end_node (rev rep))) [] True True"
    by (auto simp: splice_def Let_def split: sum.splits)
  let ?rh1 = "rev rep"
  let ?rh3 = "connect_halves ?pivot (rename_end_node ?rh1)"
  let ?M = "?lh @ ?rh3"
  let ?rel = "\<lambda>nd nd'. name nd' = name nd \<and>
      (\<forall>v \<in> set (inputs nd'). v = None \<or> v \<in> Some ` name ` set ?lh \<or> v \<in> set (inputs nd))"
  have "list_all2 ?rel (rev ?rh) rep" by (rule repair_nodes_result[OF rep])
  then have rel: "list_all2 ?rel ?rh ?rh1" by (simp only: list_all2_rev1)
  have len1: "length ?rh1 = length ?rh" using list_all2_lengthD[OF rel] by simp
  have lenrh: "2 \<le> length ?rh" using rp by simp
  have names1: "map name ?rh1 = map name ?rh" using rel by (rule list_all2_names)
  have names3: "map name ?rh3 = (map name ?rh)[length ?rh - 1 := ''output'']"
    unfolding connect_halves_names rename_end_node_names names1 len1 ..
  have dgl: "distinct (map name gl)" and dgr: "distinct (map name gr)"
    using vl vr by (simp_all add: valid_parent_def)
  have dl: "distinct (map name L)" unfolding L by (rule first_rename_distinct) (use dgl in simp_all)
  have dr: "distinct (map name R)" unfolding R by (rule first_rename_distinct) (use dgr in simp_all)
  have lform: "\<exists>k. v = ''left'' @ ''_layer_'' @ str_nat k" if "v \<in> set (map name L)" for v
    using that unfolding L by (intro first_rename_name_form[OF _ dgl]) simp_all
  have rform: "\<exists>k. v = ''right'' @ ''_layer_'' @ str_nat k" if "v \<in> set (map name R)" for v
    using that unfolding R by (intro first_rename_name_form[OF _ dgr]) simp_all
  have l_not_r: "v \<notin> set (map name R)" if "v \<in> set (map name L)" for v
    using lform[OF that] rform[of v] left_right_names by metis
  have l_not_out: "v \<noteq> ''output''" if "v \<in> set (map name L)" for v
    using lform[OF that] left_not_output by metis
  have r_not_out: "v \<noteq> ''output''" if "v \<in> set (map name R)" for v
    using rform[OF that] right_not_output by metis
  have nsl: "no_self_input L" unfolding L by (rule first_rename_no_self) (use vl in simp_all)
  have nsr: "no_self_input R" unfolding R by (rule first_rename_no_self) (use vr in simp_all)
  have rin: "v \<in> Some ` name ` set R" if "nd \<in> set R" "v \<in> set (inputs nd)" for nd v
    using that unfolding R by (intro first_rename_inputs_named[OF _ vr]) simp_all
  have pivot: "?pivot \<in> set (map name L)" using lp by simp
  have lh_sub: "set ?lh \<subseteq> set L" by (rule set_take_subset)
  have rh_sub: "set ?rh \<subseteq> set R" by (rule set_drop_subset)
  \<comment> \<open>the names of the merged list\<close>
  have upd_sub: "set ((map name ?rh)[length ?rh - 1 := ''output'']) \<subseteq> insert ''output'' (set (map name R))"
    using set_update_subset_insert[of "map name ?rh" "length ?rh - 1" "''output''"] rh_sub by auto
  have d_rh: "distinct (map name ?rh)" using dr by (simp add: drop_map[symmetric])
  have out_rh: "''output'' \<notin> set (map name ?rh)" using r_not_out rh_sub by auto
  have d_upd: "distinct ((map name ?rh)[length ?rh - 1 := ''output''])"
    using d_rh out_rh by (simp add: distinct_list_update)
  have d_lh: "distinct (map name ?lh)" using dl by (simp add: take_map[symmetric])
  have lh_names: "set (map name ?lh) \<subseteq> set (map name L)" using lh_sub by auto
  have disj: "set (map name ?lh) \<inter> set ((map name ?rh)[length ?rh - 1 := ''output'']) = {}"
    using lh_names upd_sub l_not_r l_not_out by blast
  have distM: "distinct (map name ?M)"
    using d_lh d_upd disj by (simp add: names3)
  \<comment> \<open>its length and its last node\<close>
  have len3: "length ?rh3 = length ?rh" using len1 by simp
  have lenM: "2 \<le> length ?M" using lenrh len3 by simp
  have ne3: "?rh3 \<noteq> []"
  proof
    assume "?rh3 = []"
    then have "length ?rh3 = 0" by (rule length_0_conv[THEN iffD2])
    then have "length ?rh = 0" unfolding len3 .
    with lenrh show False by linarith
  qed
  have "name (last ?rh3) = last (map name ?rh3)" using ne3 by (simp add: last_map)
  also have "\<dots> = ''output''" unfolding names3 using lenrh by (simp add: last_list_update)
  finally have lastM: "name (last ?M) = ''output''" using ne3 by simp
  \<comment> \<open>no node of the merged list names itself\<close>
  have nsM: "no_self_input ?M"
    unfolding no_self_input_iff
  proof
    fix nd' assume "nd' \<in> set ?M"
    then consider (left) "nd' \<in> set ?lh" | (right) "nd' \<in> set ?rh3" by auto
    then show "Some (name nd') \<notin> set (inputs nd')"
    proof cases
      case left
      then show ?thesis using nsl lh_sub by (auto simp: no_self_input_iff)
    next
      case right
      then obtain i where i: "i < length ?rh" "nd' = ?rh3 ! i"
        using len3 by (auto simp: in_set_conv_nth)
      have i1: "i < length ?rh1" using i(1) len1 by simp
      have nd: "?rh ! i \<in> set R" using i(1) rh_sub by (meson nth_mem subsetD)
      have "name nd' = map name ?rh3 ! i" using i len3 by simp
      then have nm: "name nd' = name (?rh ! i) \<or> name nd' = ''output''"
        unfolding names3 using i(1) by (simp add: nth_list_update)
      have "inputs (rename_end_node ?rh1 ! i) = map inputs (rename_end_node ?rh1) ! i"
        using i1 by simp
      then have ie: "inputs (rename_end_node ?rh1 ! i) = inputs (?rh1 ! i)"
        unfolding rename_end_node_inputs using i1 by simp
      have "set (inputs nd') \<subseteq> insert (Some ?pivot) (set (inputs (rename_end_node ?rh1 ! i)))"
        unfolding i(2) by (rule connect_halves_inputs) (use i1 in simp)
      then have sub: "set (inputs nd') \<subseteq> insert (Some ?pivot) (set (inputs (?rh1 ! i)))"
        unfolding ie .
      have reli: "?rel (?rh ! i) (?rh1 ! i)" using rel i(1) by (rule list_all2_nthD)
      have right_name: "name nd' \<notin> set (map name L)"
        using nm nd l_not_r l_not_out by (metis image_eqI list.set_map)
      show ?thesis
      proof
        assume self: "Some (name nd') \<in> set (inputs nd')"
        with sub have "name nd' = ?pivot \<or> Some (name nd') \<in> set (inputs (?rh1 ! i))" by auto
        then show False
        proof
          assume "name nd' = ?pivot" with pivot right_name show False by simp
        next
          assume "Some (name nd') \<in> set (inputs (?rh1 ! i))"
          with reli have "Some (name nd') \<in> Some ` name ` set ?lh
              \<or> Some (name nd') \<in> set (inputs (?rh ! i))" by auto
          then show False
          proof
            assume "Some (name nd') \<in> Some ` name ` set ?lh"
            then have "name nd' \<in> set (map name L)" using lh_sub by auto
            with right_name show False by simp
          next
            assume orig: "Some (name nd') \<in> set (inputs (?rh ! i))"
            from nm show False
            proof
              assume "name nd' = name (?rh ! i)"
              with orig nsr nd show False by (auto simp: no_self_input_iff)
            next
              assume "name nd' = ''output''"
              with orig rin[OF nd] have "''output'' \<in> set (map name R)" by auto
              with r_not_out show False by blast
            qed
          qed
        qed
      qed
    qed
  qed
  show ?thesis unfolding m by (rule rename_final_invariant[OF nsM lenM lastM distM])
qed

lemma right_candidates_range:
  "rp \<in> set (right_candidates L R lp) \<Longrightarrow> 0 < rp \<and> Suc rp < length R"
  by (auto simp: right_candidates_def split: if_splits)

lemma crossover_attempt_splice:
  assumes "crossover_attempt L R lns rns g = Inr (Some m, g')" "2 < length lns"
  shows "\<exists>lp rp g2. lp < length lns \<and> 0 < rp \<and> Suc rp < length R
           \<and> splice L R lns rns lp rp g2 = Inr (m, g')"
proof -
  from assms(1) obtain lpi g1 where ri: "randint 1 (int (length lns) - 2) g = Inr (lpi, g1)"
    by (auto simp: crossover_attempt_def split: sum.splits)
  let ?c = "right_candidates L R (nat lpi)"
  from assms(1) ri have c: "0 < length ?c"
    by (auto simp: crossover_attempt_def Let_def split: if_splits)
  with assms(1) ri obtain rp g2 where ch: "choice ?c g1 = Inr (rp, g2)"
    by (auto simp: crossover_attempt_def Let_def split: sum.splits)
  with assms(1) ri c have sp: "splice L R lns rns (nat lpi) rp g2 = Inr (m, g')"
    by (auto simp: crossover_attempt_def Let_def split: sum.splits)
  from randint_range[OF ri] assms(2) have "nat lpi < length lns" by linarith
  moreover from choice_in[OF ch] right_candidates_range have "0 < rp \<and> Suc rp < length R" by blast
  ultimately show ?thesis using sp by blast
qed

lemma crossover_loop_attempt:
  "crossover_loop L R lns rns patience None nb g = Inr (Some m, g') \<Longrightarrow>
   \<exists>g0. crossover_attempt L R lns rns g0 = Inr (Some m, g')"
proof (induction "nat (patience - nb)" arbitrary: nb g)
  case 0
  then have "\<not> nb < patience" by simp
  then have "crossover_loop L R lns rns patience None nb g = Inr (None, g)"
    by (subst crossover_loop.simps) simp
  with 0 show ?case by simp
next
  case (Suc n)
  then have lt: "nb < patience" and n: "n = nat (patience - (nb + 1))" by linarith+
  have unf: "crossover_loop L R lns rns patience None nb g =
        (case crossover_attempt L R lns rns g of
           Inl e \<Rightarrow> Inl e
         | Inr (r, g1) \<Rightarrow> crossover_loop L R lns rns patience r (nb + 1) g1)"
    using lt by (subst crossover_loop.simps) simp
  show ?case
  proof (cases "crossover_attempt L R lns rns g")
    case (Inl e)
    with unf Suc(3) show ?thesis by simp
  next
    case (Inr p)
    obtain r g1 where p: "p = (r, g1)" by (cases p)
    show ?thesis
    proof (cases r)
      case None
      with Inr p unf Suc(3) have "crossover_loop L R lns rns patience None (nb + 1) g1 = Inr (Some m, g')"
        by simp
      from Suc(1)[OF n this] show ?thesis .
    next
      case (Some m')
      with Inr p unf Suc(3) have "m' = m" "g1 = g'" by simp_all
      with Inr p Some show ?thesis by auto
    qed
  qed
qed

text \<open>
  Claim C4. For parents whose graphs are valid (unique node names, no node listing itself as
  input), every merged node list that crossover produces satisfies the graph invariant: its first
  node is named \<open>input\<close>, its last node \<open>output\<close>, every surviving input of a node is the name
  of a node at a strictly earlier position, and the names are unique, so the merged graph is
  acyclic.
\<close>

theorem crossover_graph_invariant:
  assumes "valid_parent (graph (arch model_1))" "valid_parent (graph (arch model_2))"
    and "crossover_merge model_1 model_2 patience g = Inr ((left_m, right_m), Some merged, g')"
  shows "graph_invariant merged"
proof -
  let ?ms = "if shd g mod 2 = 0 then [model_1, model_2] else [model_2, model_1]"
  let ?L = "rename_dag_node_list (graph (arch (?ms ! 0))) ''left'' True False"
  let ?R = "rename_dag_node_list (graph (arch (?ms ! 1))) ''right'' True False"
  have vl: "valid_parent (graph (arch (?ms ! 0)))" and vr: "valid_parent (graph (arch (?ms ! 1)))"
    using assms(1,2) by simp_all
  from assms(3) have long: "\<not> (length (map name ?L) \<le> 2 \<or> length (map name ?R) \<le> 2)"
    unfolding crossover_merge_def sample_two by (auto simp: Let_def split: if_splits)
  with assms(3) have "crossover_loop ?L ?R (map name ?L) (map name ?R) patience None 0 (stl (stl g))
      = Inr (Some merged, g')"
    unfolding crossover_merge_def sample_two by (auto simp: Let_def split: if_splits sum.splits)
  from crossover_loop_attempt[OF this] obtain g0 where
    "crossover_attempt ?L ?R (map name ?L) (map name ?R) g0 = Inr (Some merged, g')" by blast
  from crossover_attempt_splice[OF this] long obtain lp rp g2 where
    lp: "lp < length ?L" and rp: "0 < rp" "Suc rp < length ?R"
    and sp: "splice ?L ?R (map name ?L) (map name ?R) lp rp g2 = Inr (merged, g')"
    by auto
  show ?thesis by (rule splice_invariant[OF vl vr refl refl lp rp sp])
qed

lemma small_right2: "rename_dag_node_list (graph (arch (small_model 2))) ''right'' True False =
   [\<lparr>name = ''right_layer_0'', op = None, scale = 1, inputs = []\<rparr>,
    \<lparr>name = ''right_layer_1'', op = Some ''conv3x3'', scale = 2, inputs = [Some ''right_layer_0'']\<rparr>,
    \<lparr>name = ''right_layer_2'', op = Some ''conv3x3'', scale = 1, inputs = [Some ''right_layer_1'']\<rparr>]"
  by (simp add: small_model_def small_arch_def rename_defs str_nat.simps)

lemma splice_example:
  "splice left3 right3 (map name left3) (map name right3) (Suc 0) (Suc 0) g = Inr (merged_example, stl g)"
  by (simp add: left3_def right3_def splice_def repair_input_def choice_def enumerate_dict_def
        dict_get_def rename_end_node_def connect_halves_def rename_defs str_nat.simps
        merged_example_def)

lemma attempt_example:
  "crossover_attempt left3 right3 (map name left3) (map name right3) (sconst 0)
     = Inr (Some merged_example, sconst 0)"
proof -
  have c: "right_candidates left3 right3 (Suc 0) = [Suc 0]"
    by (simp add: left3_def right3_def right_candidates_def)
  have r: "randint 1 (int (length (map name left3)) - 2) (sconst 0) = Inr (1, sconst 0)"
    by (simp add: left3_def randint_def)
  show ?thesis
    unfolding crossover_attempt_def r
    by (simp add: c choice_def splice_example Let_def)
qed

lemma loop_example:
  "crossover_loop left3 right3 (map name left3) (map name right3) 3 None 0 (sconst 0)
     = Inr (Some merged_example, sconst 0)"
  by (subst crossover_loop.simps) (simp add: attempt_example)

lemma merge_example:
  "crossover_merge (small_model 2) (small_model 2) 3 (sconst 0)
     = Inr ((small_model 2, small_model 2), Some merged_example, sconst 0)"
proof -
  have l: "rename_dag_node_list (graph (arch (small_model 2))) ''left'' True False = left3"
    unfolding left3_def by (rule small_left)
  have r: "rename_dag_node_list (graph (arch (small_model 2))) ''right'' True False = right3"
    unfolding right3_def by (rule small_right2)
  have len: "length (graph (arch (small_model 2))) = 3"
    by (simp add: small_model_def small_arch_def)
  show ?thesis
    unfolding crossover_merge_def sample_two
    by (simp add: l r len loop_example Let_def)
qed

theorem crossover_graph_invariant_witness:
  "valid_parent (graph (arch (small_model 2)))
   \<and> crossover_merge (small_model 2) (small_model 2) 3 (sconst 0)
       = Inr ((small_model 2, small_model 2), Some merged_example, sconst 0)
   \<and> graph_invariant merged_example"
proof -
  have v: "valid_parent (graph (arch (small_model 2)))"
    by (simp add: valid_parent_def no_self_input_def small_model_def small_arch_def)
  from crossover_graph_invariant [OF v v merge_example] v merge_example show ?thesis by simp
qed

text \<open>The graph invariant is at least what a parent needs: crossover preserves it.\<close>

lemma graph_invariant_valid_parent: "graph_invariant g \<Longrightarrow> valid_parent g"
proof -
  assume gi: "graph_invariant g"
  then have d: "distinct (map name g)" and e: "inputs_earlier g"
    by (simp_all add: graph_invariant_def)
  have "no_self_input g"
    unfolding no_self_input_iff
  proof
    fix nd assume "nd \<in> set g"
    then obtain k where k: "k < length g" "nd = g ! k" by (auto simp: in_set_conv_nth)
    show "Some (name nd) \<notin> set (inputs nd)"
    proof
      assume "Some (name nd) \<in> set (inputs nd)"
      with e k have "Some (name (g ! k)) \<in> set (map (Some \<circ> name) (take k g))"
        by (auto simp: inputs_earlier_iff)
      then obtain j where j: "j < k" "name (g ! j) = name (g ! k)"
        using k(1) by (auto simp: in_set_conv_nth)
      with d k(1) show False
        by (auto simp: distinct_conv_nth)
    qed
  qed
  with d show ?thesis by (simp add: valid_parent_def)
qed

section \<open>The inputs the renamer keeps\<close>

lemma rename_node_map_fun:
  "fst (rename_node pfx aio n i rm node) =
     (\<lambda>s. case rm s of Some t \<Rightarrow> Some t
          | None \<Rightarrow> map_of [(name node, name (snd (rename_node pfx aio n i rm node)))] s)"
proof (rule ext)
  fix s
  show "fst (rename_node pfx aio n i rm node) s =
     (case rm s of Some t \<Rightarrow> Some t
      | None \<Rightarrow> map_of [(name node, name (snd (rename_node pfx aio n i rm node)))] s)"
    by (cases "rm (name node)"; cases "rm s") (auto simp: rename_node_map rename_node_name)
qed

lemma rename_nodes_inputs_exact:
  "k < length rest \<Longrightarrow>
   inputs (rename_nodes pfx aio n i rm rest ! k) =
     rename_inputs
       (\<lambda>s. case rm s of Some t \<Rightarrow> Some t
            | None \<Rightarrow> map_of (zip (take (Suc k) (map name rest))
                                  (take (Suc k) (map name (rename_nodes pfx aio n i rm rest)))) s)
       (inputs (rest ! k))"
proof (induction rest arbitrary: i rm k)
  case Nil then show ?case by simp
next
  case (Cons node rest)
  let ?rm1 = "fst (rename_node pfx aio n i rm node)"
  let ?node1 = "snd (rename_node pfx aio n i rm node)"
  let ?rec = "rename_nodes pfx aio n (Suc i) ?rm1 rest"
  have res: "rename_nodes pfx aio n i rm (node # rest) = ?node1 # ?rec"
    by (rule rename_nodes_Cons)
  show ?case
  proof (cases k)
    case 0
    have z: "zip (take (Suc 0) (map name (node # rest))) (take (Suc 0) (map name (?node1 # ?rec)))
             = [(name node, name ?node1)]" by simp
    have "inputs ?node1 = rename_inputs ?rm1 (inputs node)" by (rule rename_node_inputs)
    also have "?rm1 = (\<lambda>s. case rm s of Some t \<Rightarrow> Some t
          | None \<Rightarrow> map_of [(name node, name ?node1)] s)" by (rule rename_node_map_fun)
    finally have h: "inputs ?node1 = rename_inputs (\<lambda>s. case rm s of Some t \<Rightarrow> Some t
          | None \<Rightarrow> map_of [(name node, name ?node1)] s) (inputs node)" .
    show ?thesis unfolding res 0 z using h by simp
  next
    case (Suc k')
    with Cons.prems have k': "k' < length rest" by simp
    let ?z' = "zip (take (Suc k') (map name rest)) (take (Suc k') (map name ?rec))"
    have z: "zip (take (Suc (Suc k')) (map name (node # rest)))
                 (take (Suc (Suc k')) (map name (?node1 # ?rec)))
             = (name node, name ?node1) # ?z'" by simp
    have eq: "(\<lambda>s. case ?rm1 s of Some t \<Rightarrow> Some t | None \<Rightarrow> map_of ?z' s)
        = (\<lambda>s. case rm s of Some t \<Rightarrow> Some t
            | None \<Rightarrow> map_of ((name node, name ?node1) # ?z') s)"
    proof (rule ext)
      fix s
      have "?rm1 s = (case rm s of Some t \<Rightarrow> Some t
          | None \<Rightarrow> map_of [(name node, name ?node1)] s)"
        by (subst rename_node_map_fun) simp
      then show "(case ?rm1 s of Some t \<Rightarrow> Some t | None \<Rightarrow> map_of ?z' s)
        = (case rm s of Some t \<Rightarrow> Some t
            | None \<Rightarrow> map_of ((name node, name ?node1) # ?z') s)"
        by (cases "rm s") (auto split: option.splits if_splits)
    qed
    have "inputs (?rec ! k') = rename_inputs
        (\<lambda>s. case ?rm1 s of Some t \<Rightarrow> Some t | None \<Rightarrow> map_of ?z' s) (inputs (rest ! k'))"
      by (rule Cons.IH[OF k'])
    then show ?thesis unfolding res Suc z eq by simp
  qed
qed


lemma rename_inputs_spec: "rename_inputs f inps = spec_inputs f inps"
proof (induction inps)
  case Nil show ?case by (simp add: spec_inputs_def map_filter_simps)
next
  case (Cons inp inps)
  have "rename_inputs f (inp # inps) =
        (case inp of None \<Rightarrow> [] | Some s \<Rightarrow> if s \<noteq> [] \<and> f s \<noteq> None then [f s] else [])
        @ rename_inputs f inps"
    by (simp add: rename_inputs_def)
  then show ?case using Cons.IH
    by (cases inp) (auto simp: spec_inputs_def map_filter_simps split: option.splits)
qed

text \<open>
  Claim C6 does not hold of the code for every flag combination: with
  \<open>rename_input_output = False\<close> the rename map starts with the sentinel names \<open>input\<close> and
  \<open>output\<close>, so a reference to \<open>input\<close> survives although the list has no node of that name.
\<close>

theorem rename_keeps_foreign_sentinel:
  "rename_dag_node_list [\<lparr>name = ''a'', op = None, scale = 1, inputs = [Some ''input'']\<rparr>] [] False False
     = [\<lparr>name = ''layer_0'', op = None, scale = 1, inputs = [Some ''input'']\<rparr>]"
  by (simp add: rename_defs str_nat.simps)

text \<open>
  Claim C6, amended. For every node list, prefix and flag combination, the \<open>inputs\<close> of the node
  at position \<open>k\<close> of the returned list are, in order, the new names of those original entries of
  that node that had been renamed when the node was processed: a sentinel name \<open>input\<close> or
  \<open>output\<close> kept as it is (only when \<open>rename_input_output\<close> is false), or the old name of a node
  at a position up to \<open>k\<close>, replaced by the new name of the first such node. Every other entry
  (\<open>None\<close>, the empty name, a name not renamed so far) is dropped. Hence every surviving entry is
  the name of a node of the returned list or, only when \<open>rename_input_output\<close> is false, one of
  the two sentinel names; with \<open>rename_input_output\<close> true no dangling reference survives.
\<close>

theorem rename_no_dangling:
  assumes "k < length node_list"
  shows "inputs (rename_dag_node_list node_list prefix rename_input_output add_input_output ! k)
           = spec_inputs
               (spec_renamed rename_input_output
                  (take (Suc k) (map name node_list))
                  (take (Suc k) (map name (rename_dag_node_list node_list prefix rename_input_output
                                             add_input_output))))
               (inputs (node_list ! k))
         \<and> (\<forall>inp \<in> set (inputs (rename_dag_node_list node_list prefix rename_input_output
                                      add_input_output ! k)).
               \<exists>t. inp = Some t \<and>
                 (t \<in> name ` set (rename_dag_node_list node_list prefix rename_input_output
                                     add_input_output)
                  \<or> (\<not> rename_input_output \<and> (t = ''input'' \<or> t = ''output''))))"
proof -
  define pfx where "pfx = (if prefix \<noteq> [] then prefix @ ''_'' else [])"
  define rm0 :: "string \<rightharpoonup> string" where
    "rm0 = (if \<not> rename_input_output
            then [''input'' \<mapsto> ''input'', ''output'' \<mapsto> ''output''] else Map.empty)"
  let ?res = "rename_nodes pfx add_input_output (length node_list) 0 rm0 node_list"
  have r: "rename_dag_node_list node_list prefix rename_input_output add_input_output = ?res"
    unfolding rename_dag_node_list_def Let_def pfx_def rm0_def ..
  let ?z = "zip (take (Suc k) (map name node_list)) (take (Suc k) (map name ?res))"
  have f: "(\<lambda>s. case rm0 s of Some t \<Rightarrow> Some t | None \<Rightarrow> map_of ?z s)
           = spec_renamed rename_input_output (take (Suc k) (map name node_list))
               (take (Suc k) (map name ?res))"
  proof (rule ext)
    fix s
    show "(case rm0 s of Some t \<Rightarrow> Some t | None \<Rightarrow> map_of ?z s)
           = spec_renamed rename_input_output (take (Suc k) (map name node_list))
               (take (Suc k) (map name ?res)) s"
      unfolding rm0_def spec_renamed_def by (cases rename_input_output) auto
  qed
  have one: "inputs (?res ! k) = spec_inputs
      (spec_renamed rename_input_output (take (Suc k) (map name node_list))
         (take (Suc k) (map name ?res))) (inputs (node_list ! k))"
    using rename_nodes_inputs_exact[OF assms, of pfx add_input_output "length node_list" 0 rm0]
    unfolding f rename_inputs_spec .
  have mem: "?res ! k \<in> set ?res" using assms by simp
  have ran0: "ran rm0 = (if rename_input_output then {} else {''input'', ''output''})"
    unfolding rm0_def using ran_sentinels by (cases rename_input_output) simp_all
  have two: "\<forall>inp \<in> set (inputs (?res ! k)).
      \<exists>t. inp = Some t \<and> (t \<in> name ` set ?res \<or> (\<not> rename_input_output \<and> (t = ''input'' \<or> t = ''output'')))"
  proof
    fix inp assume "inp \<in> set (inputs (?res ! k))"
    from rename_nodes_entries[OF mem this] obtain t where t: "inp = Some t"
      "t \<in> ran rm0 \<or> t \<in> name ` set ?res" by blast
    then show "\<exists>t. inp = Some t \<and> (t \<in> name ` set ?res \<or> (\<not> rename_input_output \<and> (t = ''input'' \<or> t = ''output'')))"
      using ran0 by (cases rename_input_output) auto
  qed
  show ?thesis unfolding r using one two by blast
qed

theorem rename_no_dangling_witness:
  "(1::nat) < length [\<lparr>name = ''a'', op = None, scale = 1, inputs = []\<rparr>,
                     \<lparr>name = ''b'', op = None, scale = 1,
                        inputs = [Some ''zz'', Some ''a'', None, Some ''layer_0'', Some ''b'']\<rparr>]
   \<and> inputs (rename_dag_node_list
         [\<lparr>name = ''a'', op = None, scale = 1, inputs = []\<rparr>,
          \<lparr>name = ''b'', op = None, scale = 1,
             inputs = [Some ''zz'', Some ''a'', None, Some ''layer_0'', Some ''b'']\<rparr>] [] True False ! 1)
       = [Some ''layer_0'', Some ''layer_1'']"
proof -
  have r: "map name (rename_dag_node_list
         [\<lparr>name = ''a'', op = None, scale = 1, inputs = []\<rparr>,
          \<lparr>name = ''b'', op = None, scale = 1,
             inputs = [Some ''zz'', Some ''a'', None, Some ''layer_0'', Some ''b'']\<rparr>] [] True False)
        = [''layer_0'', ''layer_1'']"
    by (simp add: rename_defs str_nat.simps)
  have l: "(1::nat) < length [\<lparr>name = ''a'', op = None, scale = 1, inputs = []\<rparr>,
                     \<lparr>name = ''b'', op = None, scale = 1,
                        inputs = [Some ''zz'', Some ''a'', None, Some ''layer_0'', Some ''b'']\<rparr>]"
    by simp
  from rename_no_dangling [OF l, of "[]" True False] l show ?thesis
    unfolding r by (simp add: spec_inputs_def spec_renamed_def map_filter_simps)
qed

end
